theory Spec2Isabelle
  imports Complex_Main
begin

section \<open>Data model of the TSP solver (tsp\_solvers.py, class TSPSolver3D)\<close>

text \<open>
  Python floats are modelled as \<open>real\<close>: no rounding, no NaN, no infinity. The one
  infinity the source uses (\<open>np.inf\<close> as the initial minimum in clusterViewpoints) is
  \<open>None\<close> of a \<open>real option\<close>.

  A pose is the source's \<open>Pose(x, y, z, heading)\<close>. The planners receive and return
  poses flattened by \<open>asList\<close>, modelled as a 4-tuple.
\<close>

datatype pose = Pose (pose_x: real) (pose_y: real) (pose_z: real) (heading: real)

type_synonym quad = "real \<times> real \<times> real \<times> real"

definition asList :: "pose \<Rightarrow> quad" where
  "asList p = (pose_x p, pose_y p, pose_z p, heading p)"

definition to_pose :: "quad \<Rightarrow> pose" where
  "to_pose q = (case q of (a, b, c, d) \<Rightarrow> Pose a b c d)"

definition set_heading :: "pose \<Rightarrow> real \<Rightarrow> pose" where
  "set_heading p h = Pose (pose_x p) (pose_y p) (pose_z p) h"

text \<open>
  Modelled from the spec: \<open>utils.distEuclidean\<close> is not part of the source under
  study; the spec calls it the "Euclidean distance between the two poses".
\<close>

definition distEuclidean :: "pose \<Rightarrow> pose \<Rightarrow> real" where
  "distEuclidean p q =
     sqrt ((pose_x p - pose_x q)\<^sup>2 + (pose_y p - pose_y q)\<^sup>2 + (pose_z p - pose_z q)\<^sup>2)"

record viewpoint =
  idx :: nat
  pose :: pose

text \<open>The \<open>path_planner\<close> dictionary: the keys the modelled functions read.\<close>

record path_planner =
  path_planning_method :: string
  distance_estimation_method :: string
  straighten :: bool

datatype error =
    NoPathFound   \<comment> \<open>compute\_path: rospy.signal\_shutdown; exit(-2)\<close>
  | TypeError     \<comment> \<open>subscripting \<open>path_planner\<close> when it is None\<close>
  | KeyError      \<comment> \<open>\<open>self.paths[(a, b)]\<close> on a missing key\<close>
  | IndexError    \<comment> \<open>\<open>sequence[a]\<close> or \<open>viewpoints[b]\<close> out of range\<close>
  | AssertionError

text \<open>
  The external collaborators, none of them in the source under study, are parameters:
  the line-of-sight test, the two planner families and the LKH sequencing oracle. The
  sampling-based planner is randomised, so every planner call also receives the number of
  \<open>compute_path\<close> calls made before it: two calls on the same poses may differ.
  A planner returns its raw path (\<open>None\<close> when it found none) and the path's length.
  The oracle returns the visiting order, \<open>None\<close> being the depot/anchor sentinel that
  \<open>compute_tsp_sequence\<close> looks for.
\<close>

record env =
  check_line_of_sight :: "quad \<Rightarrow> quad \<Rightarrow> path_planner option \<Rightarrow> bool"
  astar_generatePath :: "nat \<Rightarrow> path_planner \<Rightarrow> quad \<Rightarrow> quad \<Rightarrow> quad list option \<times> real"
  rrt_generatePath :: "nat \<Rightarrow> path_planner \<Rightarrow> quad \<Rightarrow> quad \<Rightarrow> bool \<Rightarrow> quad list option \<times> real"
  lkh :: "real list list \<Rightarrow> nat option list"

text \<open>
  The solver object: the four attributes \<open>plan_tour\<close> creates, and one ghost field,
  \<open>calls\<close>, the log of the \<open>compute_path\<close> invocations (method, from, to) in the
  order they were made.
\<close>

record solver =
  tooFarAwayPairs :: "(nat \<times> nat) list"
  tooFarAwayDistances :: "(nat \<times> nat) \<rightharpoonup> real"
  distances :: "real list list"
  paths :: "(nat \<times> nat) \<rightharpoonup> pose list"
  calls :: "(string \<times> pose \<times> pose) list"

section \<open>The distance matrix\<close>

definition np_full :: "nat \<Rightarrow> real \<Rightarrow> real list list" where
  "np_full n v = replicate n (replicate n v)"

definition fill_diagonal :: "real list list \<Rightarrow> real \<Rightarrow> real list list" where
  "fill_diagonal m v = map (\<lambda>i. (m ! i)[i := v]) [0..<length m]"

definition mat_set :: "real list list \<Rightarrow> nat \<Rightarrow> nat \<Rightarrow> real \<Rightarrow> real list list" where
  "mat_set m a b v = m[a := (m ! a)[b := v]]"

definition square :: "nat \<Rightarrow> real list list \<Rightarrow> bool" where
  "square n m = (length m = n \<and> list_all (\<lambda>row. length row = n) m)"

section \<open>compute\_path\<close>

definition startswith :: "string \<Rightarrow> string \<Rightarrow> bool" where
  "startswith s p = (take (length p) s = p)"

text \<open>
  Lines 190-218. The raw result of the branch taken is \<open>(path, distance)\<close>; an unknown
  method leaves the initial empty path. A missing or empty path ends the process.
\<close>

definition raw_path ::
  "env \<Rightarrow> nat \<Rightarrow> pose \<Rightarrow> pose \<Rightarrow> path_planner option \<Rightarrow> string \<Rightarrow> pose list option \<times> real" where
  "raw_path E k p_from p_to pp method =
     (case pp of
        None \<Rightarrow> (Some [p_from, p_to], distEuclidean p_from p_to)
      | Some cfg \<Rightarrow>
          if method = ''euclidean'' then (Some [p_from, p_to], distEuclidean p_from p_to)
          else if method = ''astar'' then
            (case astar_generatePath E k cfg (asList p_from) (asList p_to) of
               (path, d) \<Rightarrow> (map_option (map to_pose) path, d))
          else if startswith method ''rrt'' then
            (case rrt_generatePath E k cfg (asList p_from) (asList p_to) (method = ''rrtstar'') of
               (path, d) \<Rightarrow> (map_option (map to_pose) path, d))
          else (Some [], 0))"

definition compute_path ::
  "env \<Rightarrow> nat \<Rightarrow> pose \<Rightarrow> pose \<Rightarrow> path_planner option \<Rightarrow> string \<Rightarrow> error + (pose list \<times> real)" where
  "compute_path E k p_from p_to pp method =
     (case raw_path E k p_from p_to pp method of
        (None, d) \<Rightarrow> Inl NoPathFound
      | (Some path, d) \<Rightarrow> if path = [] then Inl NoPathFound else Inr (path, d))"

text \<open>The call as the solver makes it: the result, and the invocation logged.\<close>

definition call_compute_path ::
  "env \<Rightarrow> solver \<Rightarrow> pose \<Rightarrow> pose \<Rightarrow> path_planner option \<Rightarrow> string
     \<Rightarrow> error + ((pose list \<times> real) \<times> solver)" where
  "call_compute_path E S p_from p_to pp method =
     (case compute_path E (length (calls S)) p_from p_to pp method of
        Inl e \<Rightarrow> Inl e
      | Inr r \<Rightarrow> Inr (r, S\<lparr>calls := calls S @ [(method, p_from, p_to)]\<rparr>))"

section \<open>plan\_tour: the pairwise matrix build\<close>

text \<open>\<open>path[-1].heading = h\<close> on a path that \<open>compute_path\<close> returned (never empty).\<close>

definition set_last_heading :: "pose list \<Rightarrow> real \<Rightarrow> pose list" where
  "set_last_heading path h = butlast path @ [set_heading (last path) h]"

text \<open>Lines 158-164: both directions of the path, both cells of the matrix.\<close>

definition store :: "solver \<Rightarrow> nat \<Rightarrow> nat \<Rightarrow> pose \<Rightarrow> pose list \<Rightarrow> real \<Rightarrow> solver" where
  "store S a b g2 path distance =
     (let path' = set_last_heading path (heading g2) in
      S\<lparr>paths := (paths S)((a, b) \<mapsto> path', (b, a) \<mapsto> rev path'),
        distances := mat_set (mat_set (distances S) a b distance) b a distance\<rparr>)"

definition DIST_THRESHOLD :: real where
  "DIST_THRESHOLD = 5"

text \<open>Lines 111-164: the body of the double loop at the pair \<open>(a, b)\<close>.\<close>

definition pair_step ::
  "env \<Rightarrow> viewpoint list \<Rightarrow> path_planner option \<Rightarrow> solver \<Rightarrow> nat \<times> nat \<Rightarrow> error + solver" where
  "pair_step E viewpoints pp S ab =
     (case ab of (a, b) \<Rightarrow>
        (if a = b \<or> distances S ! a ! b \<noteq> - 1 then Inr S
         else
           (let g1 = pose (viewpoints ! a); g2 = pose (viewpoints ! b) in
             (case call_compute_path E S g1 g2 pp ''euclidean'' of
                Inl e \<Rightarrow> Inl e
              | Inr ((path, distance), S1) \<Rightarrow>
                  (if \<not> check_line_of_sight E (asList g1) (asList g2) pp then
                     (if distance > DIST_THRESHOLD then
                        Inr (store
                          (S1\<lparr>tooFarAwayPairs := tooFarAwayPairs S1 @ [(a, b), (b, a)],
                              tooFarAwayDistances :=
                                (tooFarAwayDistances S1)((a, b) \<mapsto> distance, (b, a) \<mapsto> distance)\<rparr>)
                          a b g2 path (distance * 3))
                      else
                        (case pp of
                           None \<Rightarrow> Inl TypeError
                         | Some cfg \<Rightarrow>
                             (case call_compute_path E S1 g1 g2 pp (path_planning_method cfg) of
                                Inl e \<Rightarrow> Inl e
                              | Inr ((path', distance'), S2) \<Rightarrow>
                                  Inr (store S2 a b g2 path' distance'))))
                   else Inr (store S1 a b g2 path distance))))))"

fun run_pairs ::
  "env \<Rightarrow> viewpoint list \<Rightarrow> path_planner option \<Rightarrow> solver \<Rightarrow> (nat \<times> nat) list \<Rightarrow> error + solver" where
  "run_pairs E viewpoints pp S [] = Inr S"
| "run_pairs E viewpoints pp S (ab # rest) =
     (case pair_step E viewpoints pp S ab of
        Inl e \<Rightarrow> Inl e
      | Inr S' \<Rightarrow> run_pairs E viewpoints pp S' rest)"

text \<open>\<open>for a in range(n): for b in range(n)\<close>\<close>

definition all_pairs :: "nat \<Rightarrow> (nat \<times> nat) list" where
  "all_pairs n = concat (map (\<lambda>a. map (\<lambda>b. (a, b)) [0..<n]) [0..<n])"

text \<open>Lines 98-104: the fresh attributes of a planning session.\<close>

definition init_solver :: "nat \<Rightarrow> solver" where
  "init_solver n =
     \<lparr>tooFarAwayPairs = [], tooFarAwayDistances = Map.empty,
      distances = fill_diagonal (np_full n (- 1)) 0, paths = Map.empty, calls = []\<rparr>"

definition build_matrix ::
  "env \<Rightarrow> viewpoint list \<Rightarrow> path_planner option \<Rightarrow> error + solver" where
  "build_matrix E viewpoints pp =
     run_pairs E viewpoints pp (init_solver (length viewpoints)) (all_pairs (length viewpoints))"

section \<open>compute\_tsp\_sequence\<close>

text \<open>
  Lines 310-315: the index of the first \<open>None\<close> of the sequence, the loop
  \<open>for i in range(len(sequence)): if sequence[i] is None: ...; break\<close>.
\<close>

fun first_anchor :: "nat option list \<Rightarrow> nat option" where
  "first_anchor [] = None"
| "first_anchor (x # xs) = (if x = None then Some 0 else map_option Suc (first_anchor xs))"

definition anchor_rotate :: "nat option list \<Rightarrow> nat option list" where
  "anchor_rotate sequence =
     (if length sequence > 0 \<and> sequence ! 0 \<noteq> None then
        (case first_anchor sequence of
           None \<Rightarrow> sequence
         | Some i \<Rightarrow> drop i sequence @ take i sequence)
      else sequence)"

definition compute_tsp_sequence :: "env \<Rightarrow> solver \<Rightarrow> nat option list" where
  "compute_tsp_sequence E S = anchor_rotate (lkh E (distances S))"

section \<open>compute\_tsp\_tour\<close>

text \<open>
  Lines 243-253: the body of \<open>for i in range(1, len(sequence))\<close>. A pair holding the
  \<open>None\<close> sentinel is in no list of index pairs. The \<open>print\<close> reads the matrix cell and
  the registry entry of the pair before the planner is called.
\<close>

definition resolve_step ::
  "env \<Rightarrow> viewpoint list \<Rightarrow> path_planner option \<Rightarrow> nat option list \<Rightarrow> solver \<Rightarrow> nat
     \<Rightarrow> error + solver" where
  "resolve_step E viewpoints pp sequence S i =
     (case (sequence ! (i - 1), sequence ! i) of
        (Some a, Some b) \<Rightarrow>
          (if (a, b) \<in> set (tooFarAwayPairs S) then
             (if \<not> (a < length (distances S) \<and> b < length (distances S ! a)) then Inl IndexError
              else if tooFarAwayDistances S (a, b) = None then Inl KeyError
              else if \<not> (a < length viewpoints \<and> b < length viewpoints) then Inl IndexError
              else
                (case pp of
                   None \<Rightarrow> Inl TypeError
                 | Some cfg \<Rightarrow>
                     (case call_compute_path E S (pose (viewpoints ! a)) (pose (viewpoints ! b))
                             pp (path_planning_method cfg) of
                        Inl e \<Rightarrow> Inl e
                      | Inr ((path, d), S1) \<Rightarrow> Inr (S1\<lparr>paths := (paths S1)((a, b) \<mapsto> path)\<rparr>))))
           else Inr S)
      | _ \<Rightarrow> Inr S)"

fun resolve_loop ::
  "env \<Rightarrow> viewpoint list \<Rightarrow> path_planner option \<Rightarrow> nat option list \<Rightarrow> solver \<Rightarrow> nat list
     \<Rightarrow> error + solver" where
  "resolve_loop E viewpoints pp sequence S [] = Inr S"
| "resolve_loop E viewpoints pp sequence S (i # rest) =
     (case resolve_step E viewpoints pp sequence S i of
        Inl e \<Rightarrow> Inl e
      | Inr S' \<Rightarrow> resolve_loop E viewpoints pp sequence S' rest)"

text \<open>Lines 259-281: the body of \<open>for a in range(n)\<close>, \<open>path\<close> being the tour so far.\<close>

definition assemble_step ::
  "viewpoint list \<Rightarrow> nat option list \<Rightarrow> solver \<Rightarrow> nat \<Rightarrow> pose list \<Rightarrow> nat \<Rightarrow> error + pose list" where
  "assemble_step viewpoints sequence S n path a =
     (let b = (a + 1) mod n in
      if \<not> (a < length sequence \<and> b < length sequence) then Inl IndexError
      else
        (case (sequence ! a, sequence ! b) of
           (Some a_idx, Some b_idx) \<Rightarrow>
             (case paths S (a_idx, b_idx) of
                None \<Rightarrow> Inl KeyError
              | Some actual_path \<Rightarrow>
                  (let path' = path @ butlast actual_path in
                   if a = n - 1 then
                     (if b_idx < length viewpoints then Inr (path' @ [pose (viewpoints ! b_idx)])
                      else Inl IndexError)
                   else Inr path'))
         | _ \<Rightarrow> Inl KeyError))"

fun assemble_loop ::
  "viewpoint list \<Rightarrow> nat option list \<Rightarrow> solver \<Rightarrow> nat \<Rightarrow> pose list \<Rightarrow> nat list \<Rightarrow> error + pose list" where
  "assemble_loop viewpoints sequence S n path [] = Inr path"
| "assemble_loop viewpoints sequence S n path (a # rest) =
     (case assemble_step viewpoints sequence S n path a of
        Inl e \<Rightarrow> Inl e
      | Inr path' \<Rightarrow> assemble_loop viewpoints sequence S n path' rest)"

text \<open>The tour, and the solver object as the call leaves it.\<close>

definition compute_tsp_tour ::
  "env \<Rightarrow> viewpoint list \<Rightarrow> path_planner option \<Rightarrow> solver \<Rightarrow> error + (pose list \<times> solver)" where
  "compute_tsp_tour E viewpoints pp S =
     (let sequence = compute_tsp_sequence E S in
      case resolve_loop E viewpoints pp sequence S [1..<length sequence] of
        Inl e \<Rightarrow> Inl e
      | Inr S1 \<Rightarrow>
          (let n = length (distances S1) in
           case assemble_loop viewpoints sequence S1 n [] [0..<n] of
             Inl e \<Rightarrow> Inl e
           | Inr path \<Rightarrow> Inr (path, S1)))"

section \<open>plan\_tour\<close>

definition ALLOWED_PATH_PLANNERS :: "string list" where
  "ALLOWED_PATH_PLANNERS = [''euclidean'', ''astar'', ''rrt'', ''rrtstar'']"

definition ALLOWED_DISTANCE_ESTIMATION_METHODS :: "string list" where
  "ALLOWED_DISTANCE_ESTIMATION_METHODS = [''euclidean'', ''astar'', ''rrt'', ''rrtstar'']"

text \<open>
  Lines 34-38 of the method \<open>setup\<close>: the two assertions. The rest of that method
  builds the obstacle index and the grid that only the external planners read.
\<close>

definition setup_solver :: "path_planner option \<Rightarrow> error + unit" where
  "setup_solver pp =
     (case pp of
        None \<Rightarrow> Inr ()
      | Some cfg \<Rightarrow>
          if path_planning_method cfg \<notin> set ALLOWED_PATH_PLANNERS then Inl AssertionError
          else if distance_estimation_method cfg \<notin> set ALLOWED_DISTANCE_ESTIMATION_METHODS
          then Inl AssertionError
          else Inr ())"

text \<open>\<open>plan_tour\<close> with the solver object as the call leaves it, and as the source returns.\<close>

definition plan_tour_solver ::
  "env \<Rightarrow> viewpoint list \<Rightarrow> path_planner option \<Rightarrow> error + (pose list \<times> solver)" where
  "plan_tour_solver E viewpoints pp =
     (case setup_solver pp of
        Inl e \<Rightarrow> Inl e
      | Inr u \<Rightarrow>
          (case build_matrix E viewpoints pp of
             Inl e \<Rightarrow> Inl e
           | Inr S \<Rightarrow> compute_tsp_tour E viewpoints pp S))"

definition plan_tour :: "env \<Rightarrow> viewpoint list \<Rightarrow> path_planner option \<Rightarrow> error + pose list" where
  "plan_tour E viewpoints pp =
     (case plan_tour_solver E viewpoints pp of
        Inl e \<Rightarrow> Inl e
      | Inr (path, S) \<Rightarrow> Inr path)"

section \<open>clusterViewpoints: the assignment of cluster centres to robots\<close>

text \<open>\<open>d < min_dist\<close>, where \<open>min_dist\<close> starts as \<open>np.inf\<close> (\<open>None\<close>).\<close>

definition below :: "real \<Rightarrow> real option \<Rightarrow> bool" where
  "below d min_dist = (case min_dist of None \<Rightarrow> True | Some m \<Rightarrow> d < m)"

text \<open>
  Lines 366-372. \<open>assigned_clusters\<close> is the dictionary over the keys \<open>0..k-1\<close>, kept
  as the list of its values in key order.
\<close>

definition uav_step ::
  "real list list \<Rightarrow> nat \<Rightarrow> real option \<times> int list \<Rightarrow> nat \<Rightarrow> real option \<times> int list" where
  "uav_step d_mat ctr_it st uav_it =
     (case st of (min_dist, assigned_clusters) \<Rightarrow>
        if below (d_mat ! ctr_it ! uav_it) min_dist then
          (if int uav_it \<notin> set assigned_clusters then
             (Some (d_mat ! ctr_it ! uav_it), assigned_clusters[ctr_it := int uav_it])
           else (min_dist, assigned_clusters))
        else (min_dist, assigned_clusters))"

definition ctr_step :: "nat \<Rightarrow> real list list \<Rightarrow> int list \<Rightarrow> nat \<Rightarrow> int list" where
  "ctr_step k d_mat assigned_clusters ctr_it =
     snd (foldl (uav_step d_mat ctr_it) (None, assigned_clusters) [0..<k])"

text \<open>Lines 360-380: the greedy loop and the assertion after it.\<close>

definition assign_clusters :: "nat \<Rightarrow> real list list \<Rightarrow> error + int list" where
  "assign_clusters k d_mat =
     (let assigned_clusters = foldl (ctr_step k d_mat) (replicate k (- 1)) [0..<k] in
      if length assigned_clusters = length (remdups assigned_clusters) then Inr assigned_clusters
      else Inl AssertionError)"

section \<open>Predicates of the proofs and the scenarios of the spec\<close>

definition symmetric_zero_diagonal :: "nat \<Rightarrow> real list list \<Rightarrow> bool" where
  "symmetric_zero_diagonal n m \<longleftrightarrow>
     (\<forall>a<n. \<forall>b<n. m ! a ! b = m ! b ! a) \<and> (\<forall>a<n. m ! a ! a = 0)"

definition never_sentinel :: "env \<Rightarrow> bool" where
  "never_sentinel E \<longleftrightarrow>
     (\<forall>k cfg p q. snd (astar_generatePath E k cfg p q) \<noteq> - 1) \<and>
     (\<forall>k cfg p q star. snd (rrt_generatePath E k cfg p q star) \<noteq> - 1)"

definition paths_reversed :: "solver \<Rightarrow> bool" where
  "paths_reversed S \<longleftrightarrow> (\<forall>a b p. paths S (a, b) = Some p \<longrightarrow> paths S (b, a) = Some (rev p))"

definition paths_cover :: "nat \<Rightarrow> solver \<Rightarrow> bool" where
  "paths_cover n S \<longleftrightarrow>
     (\<forall>a<n. \<forall>b<n. a \<noteq> b \<longrightarrow> distances S ! a ! b \<noteq> - 1 \<longrightarrow>
        paths S (a, b) \<noteq> None \<and> paths S (b, a) \<noteq> None)"

definition deferred_straight :: "nat \<Rightarrow> viewpoint list \<Rightarrow> solver \<Rightarrow> bool" where
  "deferred_straight n vps S \<longleftrightarrow>
     (\<forall>(a, b) \<in> set (tooFarAwayPairs S).
        a < n \<and> b < n \<and> distances S ! a ! b \<noteq> - 1 \<and>
        paths S (a, b) = Some [pose (vps ! a), pose (vps ! b)])"

definition g0B :: pose where "g0B = Pose 0 0 0 0"
definition g1B :: pose where "g1B = Pose 8 0 0 1"
definition mB :: pose where "mB = Pose 4 3 0 0"
definition eB :: pose where "eB = Pose 8 0 0 0"

definition vpB :: "viewpoint list" where
  "vpB = [\<lparr>idx = 0, pose = g0B\<rparr>, \<lparr>idx = 1, pose = g1B\<rparr>]"

definition cfgB :: path_planner where
  "cfgB = \<lparr>path_planning_method = ''rrt'', distance_estimation_method = ''euclidean'',
           straighten = False\<rparr>"

definition envB :: env where
  "envB = \<lparr>check_line_of_sight = (\<lambda>p q pp. False),
          astar_generatePath = (\<lambda>k cfg p q. (None, 0)),
          rrt_generatePath = (\<lambda>k cfg p q star. (Some [p, (4, 3, 0, 0), (8, 0, 0, 0)], 10)),
          lkh = (\<lambda>m. [Some 0, Some 1])\<rparr>"

definition builtB :: solver where
  "builtB = \<lparr>tooFarAwayPairs = [(0, 1), (1, 0)],
            tooFarAwayDistances = [(0, 1) \<mapsto> 8, (1, 0) \<mapsto> 8],
            distances = [[0, 24], [24, 0]],
            paths = [(0, 1) \<mapsto> [g0B, g1B], (1, 0) \<mapsto> [g1B, g0B]],
            calls = [(''euclidean'', g0B, g1B)]\<rparr>"

definition finalB :: solver where
  "finalB = builtB\<lparr>paths := (paths builtB)((0, 1) \<mapsto> [g0B, mB, eB]),
                   calls := [(''euclidean'', g0B, g1B), (''rrt'', g0B, g1B)]\<rparr>"

definition envR :: env where
  "envR = envB\<lparr>lkh := (\<lambda>m. [Some 1, None, Some 0])\<rparr>"

definition envEmpty :: env where
  "envEmpty = envB\<lparr>lkh := (\<lambda>m. [])\<rparr>"


definition g0W :: pose where "g0W = Pose 0 0 0 0"
definition g1W :: pose where "g1W = Pose 8 6 0 0"
definition g2W :: pose where "g2W = Pose 8 0 0 0"

definition vpW :: "viewpoint list" where
  "vpW = [\<lparr>idx = 0, pose = g0W\<rparr>, \<lparr>idx = 1, pose = g1W\<rparr>, \<lparr>idx = 2, pose = g2W\<rparr>]"

definition envW :: env where
  "envW = \<lparr>check_line_of_sight = (\<lambda>p q pp. \<not> (p = asList g0W \<and> q = asList g2W)),
          astar_generatePath = (\<lambda>k cfg p q. (None, 0)),
          rrt_generatePath = (\<lambda>k cfg p q star. (Some [p, (4, 3, 0, 0), q], 10)),
          lkh = (\<lambda>m. [Some 0, Some 1, Some 2])\<rparr>"

definition builtW :: solver where
  "builtW = \<lparr>tooFarAwayPairs = [(0, 2), (2, 0)],
            tooFarAwayDistances = [(0, 2) \<mapsto> 8, (2, 0) \<mapsto> 8],
            distances = [[0, 10, 24], [10, 0, 6], [24, 6, 0]],
            paths = [(0, 1) \<mapsto> [g0W, g1W], (1, 0) \<mapsto> [g1W, g0W],
                     (0, 2) \<mapsto> [g0W, g2W], (2, 0) \<mapsto> [g2W, g0W],
                     (1, 2) \<mapsto> [g1W, g2W], (2, 1) \<mapsto> [g2W, g1W]],
            calls = [(''euclidean'', g0W, g1W), (''euclidean'', g0W, g2W),
                     (''euclidean'', g1W, g2W)]\<rparr>"

text \<open>
  The pair \<open>(a, b)\<close> has been resolved in \<open>S\<close>: its stored path is what some call of
  \<open>compute_path\<close> with the configured method returned for the two viewpoints, and the
  call is in the log.
\<close>

definition resolved ::
  "env \<Rightarrow> viewpoint list \<Rightarrow> path_planner option \<Rightarrow> nat \<Rightarrow> nat \<Rightarrow> solver \<Rightarrow> bool" where
  "resolved E vps pp a b S \<longleftrightarrow>
     (\<exists>k cfg path d. pp = Some cfg \<and>
        compute_path E k (pose (vps ! a)) (pose (vps ! b)) pp (path_planning_method cfg)
          = Inr (path, d) \<and>
        paths S (a, b) = Some path \<and>
        (path_planning_method cfg, pose (vps ! a), pose (vps ! b)) \<in> set (calls S))"




definition paths_start :: "viewpoint list \<Rightarrow> solver \<Rightarrow> bool" where
  "paths_start vps S \<longleftrightarrow>
     (\<forall>a b p. paths S (a, b) = Some p \<longrightarrow> 2 \<le> length p \<and> hd p = pose (vps ! a))"




definition envC :: env where
  "envC = envB\<lparr>rrt_generatePath := (\<lambda>k cfg p q star. (Some [p, (4, 3, 0, 0), q], 10))\<rparr>"


definition nB :: pose where "nB = Pose 3 0 0 0"

definition vpN :: "viewpoint list" where
  "vpN = [\<lparr>idx = 0, pose = g0B\<rparr>, \<lparr>idx = 1, pose = nB\<rparr>]"

definition builtN :: solver where
  "builtN = \<lparr>tooFarAwayPairs = [], tooFarAwayDistances = Map.empty,
            distances = [[0, 10], [10, 0]],
            paths = [(0, 1) \<mapsto> [g0B, mB, nB], (1, 0) \<mapsto> [nB, mB, g0B]],
            calls = [(''euclidean'', g0B, nB), (''rrt'', g0B, nB)]\<rparr>"






text \<open>
  The spec's Scenario C: three robots, and every cluster centre is nearest to robot 0, so
  that row-wise argmin would assign robot 0 three times.
\<close>

definition d_matC :: "real list list" where
  "d_matC = [[1, 2, 3], [1, 2, 3], [1, 2, 3]]"

text \<open>
  The inner loop over the robots \<open>0..u-1\<close> for the centre \<open>c\<close>, started on \<open>A\<close>: either
  every robot seen is claimed and nothing changed, or the centre holds the nearest unclaimed
  robot seen, with the minimum its distance.
\<close>

definition inner_inv ::
  "real list list \<Rightarrow> nat \<Rightarrow> int list \<Rightarrow> nat \<Rightarrow> real option \<times> int list \<Rightarrow> bool" where
  "inner_inv d_mat c A u st \<longleftrightarrow>
     (st = (None, A) \<and> (\<forall>i<u. int i \<in> set A)) \<or>
     (\<exists>j<u. st = (Some (d_mat ! c ! j), A[c := int j]) \<and> int j \<notin> set A \<and>
        (\<forall>i<u. int i \<notin> set A \<longrightarrow> d_mat ! c ! j \<le> d_mat ! c ! i))"

text \<open>The outer loop after the centres \<open>0..c-1\<close>.\<close>

definition outer_inv :: "nat \<Rightarrow> real list list \<Rightarrow> nat \<Rightarrow> int list \<Rightarrow> bool" where
  "outer_inv k d_mat c A \<longleftrightarrow>
     length A = k \<and> distinct (take c A) \<and> set (take c A) \<subseteq> int ` {0..<k} \<and>
     (\<forall>i. c \<le> i \<and> i < k \<longrightarrow> A ! i = - 1) \<and>
     (\<forall>i<c. \<forall>u<k. int u \<notin> set (take i A) \<longrightarrow> d_mat ! i ! nat (A ! i) \<le> d_mat ! i ! u)"

section \<open>Lemmas and theorems\<close>

lemma first_anchor_None: "first_anchor xs = None \<longleftrightarrow> None \<notin> set xs"
  by (induction xs) auto

lemma first_anchor_Some:
  "first_anchor xs = Some i \<Longrightarrow> i < length xs \<and> xs ! i = None \<and> (\<forall>j<i. xs ! j \<noteq> None)"
proof (induction xs arbitrary: i)
  case Nil
  then show ?case by simp
next
  case (Cons x xs)
  show ?case
  proof (cases "x = None")
    case True
    with Cons.prems show ?thesis by simp
  next
    case False
    with Cons.prems obtain j where j: "first_anchor xs = Some j" "i = Suc j"
      by auto
    from Cons.IH [OF j(1)] False j(2) show ?thesis
      by (auto simp: nth_Cons split: nat.splits)
  qed
qed

lemma anchor_rotate_anchored:
  assumes "None \<in> set sequence"
  shows "\<exists>i<length sequence. anchor_rotate sequence = rotate i sequence \<and> sequence ! i = None
           \<and> (\<forall>j<i. sequence ! j \<noteq> None)"
proof -
  from assms obtain i where i: "first_anchor sequence = Some i"
    using first_anchor_None [of sequence] by (cases "first_anchor sequence") auto
  from first_anchor_Some [OF i] have il: "i < length sequence" and ni: "sequence ! i = None"
    and mn: "\<forall>j<i. sequence ! j \<noteq> None" by auto
  have rot: "rotate i sequence = drop i sequence @ take i sequence"
    using il by (simp add: rotate_drop_take)
  show ?thesis
  proof (cases "sequence ! 0 = None")
    case True
    then have "i = 0" using mn by (cases i) auto
    then have "anchor_rotate sequence = rotate i sequence"
      using True by (simp add: anchor_rotate_def)
    with il ni mn show ?thesis by blast
  next
    case False
    then have "anchor_rotate sequence = rotate i sequence"
      using il i rot by (simp add: anchor_rotate_def)
    with il ni mn show ?thesis by blast
  qed
qed

lemma anchor_rotate_hd:
  assumes "None \<in> set sequence"
  shows "hd (anchor_rotate sequence) = None"
proof -
  from anchor_rotate_anchored [OF assms] obtain i where
    i: "i < length sequence" "anchor_rotate sequence = rotate i sequence" "sequence ! i = None"
    by blast
  then show ?thesis by (simp add: rotate_drop_take hd_append hd_drop_conv_nth)
qed

lemma anchor_rotate_no_anchor: "None \<notin> set sequence \<Longrightarrow> anchor_rotate sequence = sequence"
  using first_anchor_None [of sequence] by (simp add: anchor_rotate_def)

subsection \<open>Matrix\<close>

lemma square_nth: "square n m \<Longrightarrow> a < n \<Longrightarrow> length (m ! a) = n"
  by (simp add: square_def list_all_length)

lemma square_length: "square n m \<Longrightarrow> length m = n"
  by (simp add: square_def)

lemma square_mat_set: "square n m \<Longrightarrow> square n (mat_set m a b v)"
  by (cases "a < length m")
     (auto simp: square_def mat_set_def list_all_length nth_list_update)

lemma mat_set_nth:
  "square n m \<Longrightarrow> c < n \<Longrightarrow> d < n \<Longrightarrow>
   mat_set m a b v ! c ! d = (if c = a \<and> d = b then v else m ! c ! d)"
  by (cases "a < length m"; cases "b < length (m ! a)")
     (auto simp: square_def mat_set_def list_all_length nth_list_update)

lemma square_init: "square n (fill_diagonal (np_full n v) w)"
  by (auto simp: square_def fill_diagonal_def np_full_def list_all_length)

lemma init_nth:
  "a < n \<Longrightarrow> b < n \<Longrightarrow> fill_diagonal (np_full n v) w ! a ! b = (if a = b then w else v)"
  by (auto simp: fill_diagonal_def np_full_def nth_list_update)

subsection \<open>compute_path\<close>

lemma compute_path_nonempty: "compute_path E k p q pp m = Inr (path, d) \<Longrightarrow> path \<noteq> []"
  by (auto simp: compute_path_def split: prod.splits option.splits if_splits)

lemma compute_path_euclidean:
  "compute_path E k p q pp ''euclidean'' = Inr ([p, q], distEuclidean p q)"
  by (simp add: compute_path_def raw_path_def split: option.splits)

lemma call_euclidean:
  "call_compute_path E S p q pp ''euclidean'' =
     Inr (([p, q], distEuclidean p q), S\<lparr>calls := calls S @ [(''euclidean'', p, q)]\<rparr>)"
  by (simp add: call_compute_path_def compute_path_euclidean)

lemma distEuclidean_nonneg: "0 \<le> distEuclidean p q"
  by (simp add: distEuclidean_def)

lemma set_last_heading_segment: "set_last_heading [p, q] (heading q) = [p, q]"
  by (simp add: set_last_heading_def set_heading_def)

text \<open>What one iteration does, branch by branch.\<close>

lemma pair_step_skip:
  "a = b \<or> distances S ! a ! b \<noteq> - 1 \<Longrightarrow> pair_step E vps pp S (a, b) = Inr S"
  by (simp add: pair_step_def)

lemma pair_step_los:
  assumes "a \<noteq> b" "distances S ! a ! b = - 1"
    and "check_line_of_sight E (asList (pose (vps ! a))) (asList (pose (vps ! b))) pp"
  shows "pair_step E vps pp S (a, b) =
     Inr (store (S\<lparr>calls := calls S @ [(''euclidean'', pose (vps ! a), pose (vps ! b))]\<rparr>)
            a b (pose (vps ! b)) [pose (vps ! a), pose (vps ! b)]
            (distEuclidean (pose (vps ! a)) (pose (vps ! b))))"
  using assms by (simp add: pair_step_def call_euclidean Let_def)

lemma pair_step_deferred:
  assumes "a \<noteq> b" "distances S ! a ! b = - 1"
    and "\<not> check_line_of_sight E (asList (pose (vps ! a))) (asList (pose (vps ! b))) pp"
    and "distEuclidean (pose (vps ! a)) (pose (vps ! b)) > DIST_THRESHOLD"
  shows "pair_step E vps pp S (a, b) =
     Inr (store (S\<lparr>calls := calls S @ [(''euclidean'', pose (vps ! a), pose (vps ! b))],
                    tooFarAwayPairs := tooFarAwayPairs S @ [(a, b), (b, a)],
                    tooFarAwayDistances := (tooFarAwayDistances S)
                      ((a, b) \<mapsto> distEuclidean (pose (vps ! a)) (pose (vps ! b)),
                       (b, a) \<mapsto> distEuclidean (pose (vps ! a)) (pose (vps ! b)))\<rparr>)
            a b (pose (vps ! b)) [pose (vps ! a), pose (vps ! b)]
            (distEuclidean (pose (vps ! a)) (pose (vps ! b)) * 3))"
  using assms by (simp add: pair_step_def call_euclidean Let_def)

lemma pair_step_planned:
  assumes "a \<noteq> b" "distances S ! a ! b = - 1"
    and "\<not> check_line_of_sight E (asList (pose (vps ! a))) (asList (pose (vps ! b))) pp"
    and "\<not> distEuclidean (pose (vps ! a)) (pose (vps ! b)) > DIST_THRESHOLD"
  shows "pair_step E vps pp S (a, b) =
     (case pp of
        None \<Rightarrow> Inl TypeError
      | Some cfg \<Rightarrow>
         (case compute_path E (Suc (length (calls S))) (pose (vps ! a)) (pose (vps ! b)) pp
                 (path_planning_method cfg) of
            Inl e \<Rightarrow> Inl e
          | Inr (path, d) \<Rightarrow>
              Inr (store (S\<lparr>calls := calls S @ [(''euclidean'', pose (vps ! a), pose (vps ! b)),
                              (path_planning_method cfg, pose (vps ! a), pose (vps ! b))]\<rparr>)
                     a b (pose (vps ! b)) path d)))"
proof (cases pp)
  case None
  then show ?thesis using assms by (simp add: pair_step_def call_euclidean Let_def)
next
  case (Some cfg)
  have "pair_step E vps pp S (a, b) =
     (case call_compute_path E (S\<lparr>calls := calls S @ [(''euclidean'', pose (vps ! a), pose (vps ! b))]\<rparr>)
             (pose (vps ! a)) (pose (vps ! b)) pp (path_planning_method cfg) of
        Inl e \<Rightarrow> Inl e
      | Inr ((path', distance'), S2) \<Rightarrow> Inr (store S2 a b (pose (vps ! b)) path' distance'))"
    using assms Some by (simp add: pair_step_def call_euclidean Let_def)
  then show ?thesis
    using Some by (simp add: call_compute_path_def split: sum.split prod.split)
qed

lemma store_distances:
  "distances (store S a b g2 path d) = mat_set (mat_set (distances S) a b d) b a d"
  by (simp add: store_def Let_def)

lemma store_fields [simp]:
  "paths (store S a b g2 path d) =
     (paths S)((a, b) \<mapsto> set_last_heading path (heading g2),
               (b, a) \<mapsto> rev (set_last_heading path (heading g2)))"
  "tooFarAwayPairs (store S a b g2 path d) = tooFarAwayPairs S"
  "tooFarAwayDistances (store S a b g2 path d) = tooFarAwayDistances S"
  "calls (store S a b g2 path d) = calls S"
  by (simp_all add: store_def Let_def)

lemma pair_step_cases [consumes 1, case_names skip los deferred planned]:
  assumes "pair_step E vps pp S (a, b) = Inr S'"
  obtains
    (skip) "S' = S" "a = b \<or> distances S ! a ! b \<noteq> - 1"
  | (los) "a \<noteq> b" "distances S ! a ! b = - 1"
      "check_line_of_sight E (asList (pose (vps ! a))) (asList (pose (vps ! b))) pp"
      "S' = store (S\<lparr>calls := calls S @ [(''euclidean'', pose (vps ! a), pose (vps ! b))]\<rparr>)
            a b (pose (vps ! b)) [pose (vps ! a), pose (vps ! b)]
            (distEuclidean (pose (vps ! a)) (pose (vps ! b)))"
  | (deferred) "a \<noteq> b" "distances S ! a ! b = - 1"
      "\<not> check_line_of_sight E (asList (pose (vps ! a))) (asList (pose (vps ! b))) pp"
      "distEuclidean (pose (vps ! a)) (pose (vps ! b)) > DIST_THRESHOLD"
      "S' = store (S\<lparr>calls := calls S @ [(''euclidean'', pose (vps ! a), pose (vps ! b))],
                    tooFarAwayPairs := tooFarAwayPairs S @ [(a, b), (b, a)],
                    tooFarAwayDistances := (tooFarAwayDistances S)
                      ((a, b) \<mapsto> distEuclidean (pose (vps ! a)) (pose (vps ! b)),
                       (b, a) \<mapsto> distEuclidean (pose (vps ! a)) (pose (vps ! b)))\<rparr>)
            a b (pose (vps ! b)) [pose (vps ! a), pose (vps ! b)]
            (distEuclidean (pose (vps ! a)) (pose (vps ! b)) * 3)"
  | (planned) cfg path d where "a \<noteq> b" "distances S ! a ! b = - 1"
      "\<not> check_line_of_sight E (asList (pose (vps ! a))) (asList (pose (vps ! b))) pp"
      "\<not> distEuclidean (pose (vps ! a)) (pose (vps ! b)) > DIST_THRESHOLD"
      "pp = Some cfg"
      "compute_path E (Suc (length (calls S))) (pose (vps ! a)) (pose (vps ! b)) pp
         (path_planning_method cfg) = Inr (path, d)"
      "S' = store (S\<lparr>calls := calls S @ [(''euclidean'', pose (vps ! a), pose (vps ! b)),
                              (path_planning_method cfg, pose (vps ! a), pose (vps ! b))]\<rparr>)
                     a b (pose (vps ! b)) path d"
proof (cases "a = b \<or> distances S ! a ! b \<noteq> - 1")
  case True
  with assms have "S' = S" by (simp add: pair_step_skip)
  from this True show ?thesis by (rule skip)
next
  case False
  then have ab: "a \<noteq> b" and unset: "distances S ! a ! b = - 1" by auto
  show ?thesis
  proof (cases "check_line_of_sight E (asList (pose (vps ! a))) (asList (pose (vps ! b))) pp")
    case True
    from assms pair_step_los [OF ab unset True] show ?thesis
      by (intro los [OF ab unset True]) simp
  next
    case nolos: False
    show ?thesis
    proof (cases "distEuclidean (pose (vps ! a)) (pose (vps ! b)) > DIST_THRESHOLD")
      case True
      from assms pair_step_deferred [OF ab unset nolos True] show ?thesis
        by (intro deferred [OF ab unset nolos True]) simp
    next
      case near: False
      note eq = pair_step_planned [OF ab unset nolos near]
      from assms eq obtain cfg where cfg: "pp = Some cfg"
        by (cases pp) auto
      from assms eq cfg obtain path d where
        cp: "compute_path E (Suc (length (calls S))) (pose (vps ! a)) (pose (vps ! b)) pp
               (path_planning_method cfg) = Inr (path, d)"
        by (auto split: sum.splits)
      from assms eq cfg cp show ?thesis
        by (intro planned [OF ab unset nolos near cfg cp]) simp
    qed
  qed
qed

lemma store_cell:
  assumes "square n (distances S)" "c < n" "d < n" "a \<noteq> b"
  shows "distances (store S a b g2 path v) ! c ! d =
           (if (c = a \<and> d = b) \<or> (c = b \<and> d = a) then v else distances S ! c ! d)"
proof -
  have sq1: "square n (mat_set (distances S) a b v)"
    using assms(1) by (rule square_mat_set)
  show ?thesis
    using assms(2-4)
    by (auto simp: store_distances mat_set_nth [OF sq1] mat_set_nth [OF assms(1)])
qed

lemma store_square: "square n (distances S) \<Longrightarrow> square n (distances (store S a b g2 path v))"
  by (simp add: store_distances square_mat_set)

lemma store_path:
  "a \<noteq> b \<Longrightarrow> paths (store S a b g2 path v) (c, d) =
     (if c = a \<and> d = b then Some (set_last_heading path (heading g2))
      else if c = b \<and> d = a then Some (rev (set_last_heading path (heading g2)))
      else paths S (c, d))"
  by auto

lemma pair_step_square:
  "pair_step E vps pp S (a, b) = Inr S' \<Longrightarrow> square n (distances S) \<Longrightarrow> square n (distances S')"
  by (cases rule: pair_step_cases) (auto simp: store_square)

lemma store_symmetric:
  assumes "square n (distances S)" "symmetric_zero_diagonal n (distances S)" "a \<noteq> b"
  shows "symmetric_zero_diagonal n (distances (store S a b g2 path v))"
  unfolding symmetric_zero_diagonal_def
proof (intro conjI allI impI)
  fix c d assume "c < n" "d < n"
  with assms show "distances (store S a b g2 path v) ! c ! d = distances (store S a b g2 path v) ! d ! c"
    by (auto simp: store_cell [OF assms(1)] symmetric_zero_diagonal_def)
next
  fix c assume "c < n"
  with assms show "distances (store S a b g2 path v) ! c ! c = 0"
    by (auto simp: store_cell [OF assms(1)] symmetric_zero_diagonal_def)
qed

lemma pair_step_symmetric:
  assumes "pair_step E vps pp S (a, b) = Inr S'" "square n (distances S)"
    and "symmetric_zero_diagonal n (distances S)"
  shows "symmetric_zero_diagonal n (distances S')"
  using assms(1)
proof (cases rule: pair_step_cases)
  case skip
  with assms show ?thesis by simp
next
  case los
  show ?thesis unfolding los(4)
    by (rule store_symmetric) (use assms los in simp_all)
next
  case deferred
  show ?thesis unfolding deferred(5)
    by (rule store_symmetric) (use assms deferred in simp_all)
next
  case (planned cfg path d)
  show ?thesis unfolding planned(7)
    by (rule store_symmetric) (use assms planned in simp_all)
qed

lemma run_pairs_symmetric:
  "run_pairs E vps pp S ps = Inr S' \<Longrightarrow> square n (distances S) \<Longrightarrow>
   symmetric_zero_diagonal n (distances S) \<Longrightarrow>
   square n (distances S') \<and> symmetric_zero_diagonal n (distances S')"
proof (induction ps arbitrary: S)
  case Nil
  then show ?case by simp
next
  case (Cons p ps)
  obtain a b where p: "p = (a, b)" by (cases p)
  from Cons.prems(1) obtain S1 where
    s1: "pair_step E vps pp S (a, b) = Inr S1" and r: "run_pairs E vps pp S1 ps = Inr S'"
    by (auto simp: p split: sum.splits)
  from pair_step_square [OF s1 Cons.prems(2)] pair_step_symmetric [OF s1 Cons.prems(2,3)]
  show ?case by (rule Cons.IH [OF r])
qed

lemma init_square: "square n (distances (init_solver n))"
  by (simp add: init_solver_def square_init)

lemma init_symmetric: "symmetric_zero_diagonal n (distances (init_solver n))"
  by (simp add: init_solver_def symmetric_zero_diagonal_def init_nth)

lemma init_cell: "a < n \<Longrightarrow> b < n \<Longrightarrow> distances (init_solver n) ! a ! b = (if a = b then 0 else - 1)"
  by (simp add: init_solver_def init_nth)

text \<open>The tour leaves the matrix and the registry as they are.\<close>

lemma resolve_step_keeps:
  "resolve_step E vps pp sequence S i = Inr S' \<Longrightarrow>
   distances S' = distances S \<and> tooFarAwayPairs S' = tooFarAwayPairs S \<and>
   tooFarAwayDistances S' = tooFarAwayDistances S"
  by (auto simp: resolve_step_def call_compute_path_def
           split: option.splits if_splits sum.splits prod.splits)

lemma resolve_loop_keeps:
  "resolve_loop E vps pp sequence S is = Inr S' \<Longrightarrow>
   distances S' = distances S \<and> tooFarAwayPairs S' = tooFarAwayPairs S \<and>
   tooFarAwayDistances S' = tooFarAwayDistances S"
proof (induction "is" arbitrary: S)
  case Nil
  then show ?case by simp
next
  case (Cons i rest)
  from Cons.prems obtain S1 where
    s1: "resolve_step E vps pp sequence S i = Inr S1"
    and r: "resolve_loop E vps pp sequence S1 rest = Inr S'"
    by (auto split: sum.splits)
  from resolve_step_keeps [OF s1] Cons.IH [OF r] show ?case by simp
qed

lemma compute_tsp_tour_keeps:
  "compute_tsp_tour E vps pp S = Inr (tour, S') \<Longrightarrow>
   distances S' = distances S \<and> tooFarAwayPairs S' = tooFarAwayPairs S \<and>
   tooFarAwayDistances S' = tooFarAwayDistances S"
  by (auto simp: compute_tsp_tour_def Let_def split: sum.splits dest: resolve_loop_keeps)

lemma run_pairs_append:
  "run_pairs E vps pp S (xs @ ys) =
     (case run_pairs E vps pp S xs of Inl e \<Rightarrow> Inl e | Inr S1 \<Rightarrow> run_pairs E vps pp S1 ys)"
  by (induction xs arbitrary: S) (auto split: sum.splits)

lemma run_pairs_invariant:
  assumes "run_pairs E vps pp S ps = Inr S'" "P S"
    and "\<And>T a b T'. (a, b) \<in> set ps \<Longrightarrow> P T \<Longrightarrow> pair_step E vps pp T (a, b) = Inr T' \<Longrightarrow> P T'"
  shows "P S'"
  using assms
proof (induction ps arbitrary: S)
  case Nil
  then show ?case by simp
next
  case (Cons p ps)
  obtain a b where p: "p = (a, b)" by (cases p)
  from Cons.prems(1) obtain S1 where
    s1: "pair_step E vps pp S (a, b) = Inr S1" and r: "run_pairs E vps pp S1 ps = Inr S'"
    by (auto simp: p split: sum.splits)
  have "P S1" using Cons.prems(3) [OF _ Cons.prems(2) s1] by (simp add: p)
  with r show ?case
    by (rule Cons.IH) (use Cons.prems(3) in auto)
qed

subsection \<open>Both directions are stored together\<close>

lemma store_reversed:
  "paths_reversed S \<Longrightarrow> a \<noteq> b \<Longrightarrow> paths_reversed (store S a b g2 path v)"
  unfolding paths_reversed_def by (auto simp: store_path)

lemma pair_step_reversed:
  assumes "pair_step E vps pp S (a, b) = Inr S'" "paths_reversed S"
  shows "paths_reversed S'"
  using assms(1)
proof (cases rule: pair_step_cases)
  case skip
  with assms show ?thesis by simp
next
  case los
  show ?thesis unfolding los(4)
    by (rule store_reversed) (use assms los in \<open>simp_all add: paths_reversed_def\<close>)
next
  case deferred
  show ?thesis unfolding deferred(5)
    by (rule store_reversed) (use assms deferred in \<open>simp_all add: paths_reversed_def\<close>)
next
  case (planned cfg path d)
  show ?thesis unfolding planned(7)
    by (rule store_reversed) (use assms planned in \<open>simp_all add: paths_reversed_def\<close>)
qed

lemma run_pairs_reversed:
  "run_pairs E vps pp S ps = Inr S' \<Longrightarrow> paths_reversed S \<Longrightarrow> paths_reversed S'"
  by (erule run_pairs_invariant) (auto intro: pair_step_reversed)

lemma init_reversed: "paths_reversed (init_solver n)"
  by (simp add: paths_reversed_def init_solver_def)

subsection \<open>The cells and paths an iteration leaves alone\<close>

lemma pair_step_other:
  assumes "pair_step E vps pp S (c, d) = Inr S'" "square n (distances S)" "a < n" "b < n"
    and "(a, b) \<noteq> (c, d)" "(a, b) \<noteq> (d, c)"
  shows "distances S' ! a ! b = distances S ! a ! b \<and> paths S' (a, b) = paths S (a, b)"
  using assms(1)
proof (cases rule: pair_step_cases)
  case skip
  then show ?thesis by simp
next
  case los
  show ?thesis unfolding los(4)
    using assms(2-) los(1) by (auto simp: store_cell [of n] store_path)
next
  case deferred
  show ?thesis unfolding deferred(5)
    using assms(2-) deferred(1) by (auto simp: store_cell [of n] store_path)
next
  case (planned cfg path v)
  show ?thesis unfolding planned(7)
    using assms(2-) planned(1) by (auto simp: store_cell [of n] store_path)
qed

lemma run_pairs_untouched:
  assumes "run_pairs E vps pp S ps = Inr S'" "square n (distances S)" "a < n" "b < n"
    and "(a, b) \<notin> set ps" "(b, a) \<notin> set ps"
  shows "distances S' ! a ! b = distances S ! a ! b \<and> paths S' (a, b) = paths S (a, b)"
proof -
  let ?P = "\<lambda>T. square n (distances T) \<and> distances T ! a ! b = distances S ! a ! b
                 \<and> paths T (a, b) = paths S (a, b)"
  have "?P S'"
  proof (rule run_pairs_invariant [OF assms(1), where P = ?P])
    show "?P S" using assms(2) by simp
  next
    fix T c d T'
    assume cd: "(c, d) \<in> set ps" and T: "?P T" and st: "pair_step E vps pp T (c, d) = Inr T'"
    from cd assms(5,6) have ne: "(a, b) \<noteq> (c, d)" "(a, b) \<noteq> (d, c)" by auto
    from T have sq: "square n (distances T)" by simp
    from pair_step_other [OF st sq assms(3,4) ne] pair_step_square [OF st sq] T
    show "?P T'" by simp
  qed
  then show ?thesis by simp
qed

text \<open>A cell that is set is never written again.\<close>

lemma pair_step_stable:
  assumes "pair_step E vps pp S (c, d) = Inr S'" "square n (distances S)"
    and "symmetric_zero_diagonal n (distances S)" "a < n" "b < n" "c < n" "d < n"
    and "distances S ! a ! b \<noteq> - 1"
  shows "distances S' ! a ! b = distances S ! a ! b \<and> paths S' (a, b) = paths S (a, b)"
proof (cases "c = d \<or> distances S ! c ! d \<noteq> - 1")
  case True
  with assms(1) show ?thesis by (simp add: pair_step_skip)
next
  case False
  then have unset: "distances S ! c ! d = - 1" by simp
  then have "distances S ! d ! c = - 1"
    using assms(3,6,7) by (simp add: symmetric_zero_diagonal_def)
  with unset assms(8) have "(a, b) \<noteq> (c, d)" "(a, b) \<noteq> (d, c)" by auto
  from pair_step_other [OF assms(1,2,4,5) this] show ?thesis .
qed

lemma run_pairs_stable:
  assumes "run_pairs E vps pp S ps = Inr S'" "square n (distances S)"
    and "symmetric_zero_diagonal n (distances S)" "a < n" "b < n"
    and "\<forall>(c, d) \<in> set ps. c < n \<and> d < n"
    and "distances S ! a ! b \<noteq> - 1"
  shows "distances S' ! a ! b = distances S ! a ! b \<and> paths S' (a, b) = paths S (a, b)"
proof -
  let ?P = "\<lambda>T. square n (distances T) \<and> symmetric_zero_diagonal n (distances T)
                 \<and> distances T ! a ! b = distances S ! a ! b \<and> paths T (a, b) = paths S (a, b)"
  have "?P S'"
  proof (rule run_pairs_invariant [OF assms(1), where P = ?P])
    show "?P S" using assms(2,3) by simp
  next
    fix T c d T'
    assume cd: "(c, d) \<in> set ps" and T: "?P T" and st: "pair_step E vps pp T (c, d) = Inr T'"
    from cd assms(6) have r: "c < n" "d < n" by auto
    from T have sq: "square n (distances T)" and sy: "symmetric_zero_diagonal n (distances T)"
      and ne: "distances T ! a ! b \<noteq> - 1" using assms(7) by simp_all
    from pair_step_stable [OF st sq sy assms(4,5) r ne]
      pair_step_square [OF st sq] pair_step_symmetric [OF st sq sy] T
    show "?P T'" by simp
  qed
  then show ?thesis by simp
qed

lemma all_pairs_in_range: "(a, b) \<in> set (all_pairs n) \<longleftrightarrow> a < n \<and> b < n"
  by (force simp: all_pairs_def)

lemma all_pairs_split:
  assumes "a < n" "b < n"
  shows "\<exists>pre post. all_pairs n = pre @ (a, b) # post \<and>
           (\<forall>(c, d) \<in> set pre. c < a \<or> (c = a \<and> d < b))"
proof -
  let ?row = "\<lambda>a. map (\<lambda>b. (a, b)) [0..<n]"
  have rows: "[0..<n] = [0..<a] @ a # [Suc a..<n]"
    using assms(1) by (metis less_imp_add_positive upt_add_eq_append upt_conv_Cons zero_le add.commute le_add2 less_imp_le_nat le_add_diff_inverse)
  have cols: "[0..<n] = [0..<b] @ b # [Suc b..<n]"
    using assms(2) by (metis less_imp_add_positive upt_add_eq_append upt_conv_Cons zero_le add.commute le_add2 less_imp_le_nat le_add_diff_inverse)
  have "?row a = map (\<lambda>b. (a, b)) [0..<b] @ (a, b) # map (\<lambda>b. (a, b)) [Suc b..<n]"
    by (subst cols) simp
  moreover have "all_pairs n = concat (map ?row [0..<a]) @ ?row a @ concat (map ?row [Suc a..<n])"
    unfolding all_pairs_def by (subst (2) rows) simp
  ultimately have "all_pairs n =
      (concat (map ?row [0..<a]) @ map (\<lambda>b. (a, b)) [0..<b]) @ (a, b) #
      (map (\<lambda>b. (a, b)) [Suc b..<n] @ concat (map ?row [Suc a..<n]))"
    by simp
  moreover have "\<forall>(c, d) \<in> set (concat (map ?row [0..<a]) @ map (\<lambda>b. (a, b)) [0..<b]).
                   c < a \<or> (c = a \<and> d < b)"
    by auto
  ultimately show ?thesis by blast
qed

subsection \<open>A pair with line of sight\<close>

lemma distEuclidean_not_sentinel: "distEuclidean p q \<noteq> - 1" "distEuclidean p q * 3 \<noteq> - 1"
  using distEuclidean_nonneg [of p q] by auto

lemma build_first_visit:
  assumes "build_matrix E vps pp = Inr S" "a < b" "b < length vps"
  shows "\<exists>pre post S1 S2. all_pairs (length vps) = pre @ (a, b) # post \<and>
           run_pairs E vps pp (init_solver (length vps)) pre = Inr S1 \<and>
           pair_step E vps pp S1 (a, b) = Inr S2 \<and>
           run_pairs E vps pp S2 post = Inr S \<and>
           square (length vps) (distances S1) \<and>
           symmetric_zero_diagonal (length vps) (distances S1) \<and>
           distances S1 ! a ! b = - 1"
proof -
  let ?n = "length vps"
  from assms have an: "a < ?n" by simp
  from all_pairs_split [OF an assms(3)] obtain pre post where
    split: "all_pairs ?n = pre @ (a, b) # post"
    and before: "\<forall>(c, d) \<in> set pre. c < a \<or> (c = a \<and> d < b)"
    by blast
  from assms(1) obtain S1 S2 where
    r1: "run_pairs E vps pp (init_solver ?n) pre = Inr S1"
    and st: "pair_step E vps pp S1 (a, b) = Inr S2"
    and r2: "run_pairs E vps pp S2 post = Inr S"
    by (auto simp: build_matrix_def split run_pairs_append split: sum.splits)
  from before assms(2) have notin: "(a, b) \<notin> set pre" "(b, a) \<notin> set pre" by auto
  from run_pairs_untouched [OF r1 init_square an assms(3) notin]
  have "distances S1 ! a ! b = - 1"
    using assms(2) an assms(3) by (simp add: init_cell)
  moreover from run_pairs_symmetric [OF r1 init_square init_symmetric]
  have "square ?n (distances S1)" "symmetric_zero_diagonal ?n (distances S1)" by simp_all
  ultimately show ?thesis using split r1 st r2 by blast
qed


subsection \<open>Every set cell has its two paths\<close>

lemma store_cover:
  assumes "paths_cover n S" "square n (distances S)" "a \<noteq> b"
  shows "paths_cover n (store S a b g2 path v)"
  unfolding paths_cover_def
proof (intro allI impI)
  fix c d assume "c < n" "d < n" "c \<noteq> d" "distances (store S a b g2 path v) ! c ! d \<noteq> - 1"
  with assms show "paths (store S a b g2 path v) (c, d) \<noteq> None \<and>
                   paths (store S a b g2 path v) (d, c) \<noteq> None"
    by (auto simp: store_cell [of n] store_path paths_cover_def split: if_splits)
qed

lemma pair_step_cover:
  assumes "pair_step E vps pp S (a, b) = Inr S'" "square n (distances S)" "paths_cover n S"
  shows "paths_cover n S'"
  using assms(1)
proof (cases rule: pair_step_cases)
  case skip
  with assms show ?thesis by simp
next
  case los
  show ?thesis unfolding los(4)
    by (rule store_cover) (use assms los in \<open>simp_all add: paths_cover_def\<close>)
next
  case deferred
  show ?thesis unfolding deferred(5)
    by (rule store_cover) (use assms deferred in \<open>simp_all add: paths_cover_def\<close>)
next
  case (planned cfg path d)
  show ?thesis unfolding planned(7)
    by (rule store_cover) (use assms planned in \<open>simp_all add: paths_cover_def\<close>)
qed

lemma pair_step_stores:
  assumes "pair_step E vps pp S (a, b) = Inr S'" "paths_cover n S" "a < n" "b < n" "a \<noteq> b"
  shows "paths S' (a, b) \<noteq> None \<and> paths S' (b, a) \<noteq> None"
  using assms(1)
proof (cases rule: pair_step_cases)
  case skip
  with assms show ?thesis by (simp add: paths_cover_def)
next
  case los
  show ?thesis unfolding los(4) using assms(5) by (simp add: store_path)
next
  case deferred
  show ?thesis unfolding deferred(5) using assms(5) by (simp add: store_path)
next
  case (planned cfg path d)
  show ?thesis unfolding planned(7) using assms(5) by (simp add: store_path)
qed

lemma pair_step_dom: "pair_step E vps pp S (a, b) = Inr S' \<Longrightarrow> dom (paths S) \<subseteq> dom (paths S')"
  by (cases rule: pair_step_cases) auto

lemma run_pairs_dom: "run_pairs E vps pp S ps = Inr S' \<Longrightarrow> dom (paths S) \<subseteq> dom (paths S')"
proof (induction ps arbitrary: S)
  case Nil
  then show ?case by simp
next
  case (Cons p ps)
  obtain a b where p: "p = (a, b)" by (cases p)
  from Cons.prems(1) obtain S1 where
    s1: "pair_step E vps pp S (a, b) = Inr S1" and r: "run_pairs E vps pp S1 ps = Inr S'"
    by (auto simp: p split: sum.splits)
  from pair_step_dom [OF s1] Cons.IH [OF r] show ?case by blast
qed

lemma run_pairs_cover:
  assumes "run_pairs E vps pp S ps = Inr S'" "square n (distances S)" "paths_cover n S"
    and "(a, b) \<in> set ps" "a < n" "b < n" "a \<noteq> b"
  shows "paths S' (a, b) \<noteq> None \<and> paths S' (b, a) \<noteq> None"
  using assms(1-4)
proof (induction ps arbitrary: S)
  case Nil
  then show ?case by simp
next
  case (Cons p ps)
  obtain c d where p: "p = (c, d)" by (cases p)
  from Cons.prems(1) obtain S1 where
    s1: "pair_step E vps pp S (c, d) = Inr S1" and r: "run_pairs E vps pp S1 ps = Inr S'"
    by (auto simp: p split: sum.splits)
  note sq1 = pair_step_square [OF s1 Cons.prems(2)]
  note cv1 = pair_step_cover [OF s1 Cons.prems(2,3)]
  show ?case
  proof (cases "(a, b) = (c, d)")
    case True
    with s1 have "pair_step E vps pp S (a, b) = Inr S1" by simp
    from pair_step_stores [OF this Cons.prems(3) assms(5-7)] run_pairs_dom [OF r]
    show ?thesis by (auto simp: dom_def)
  next
    case False
    with Cons.prems(4) p have "(a, b) \<in> set ps" by auto
    from Cons.IH [OF r sq1 cv1 this] show ?thesis .
  qed
qed

lemma init_cover: "paths_cover n (init_solver n)"
  by (simp add: paths_cover_def init_cell)

subsection \<open>No set cell holds the sentinel\<close>

lemma compute_path_not_sentinel:
  assumes "never_sentinel E" "compute_path E k p q pp m = Inr (path, d)"
  shows "d \<noteq> - 1"
proof -
  have a: "snd (astar_generatePath E k cfg (asList p) (asList q)) \<noteq> - 1" for cfg
    using assms(1) unfolding never_sentinel_def by blast
  have r: "snd (rrt_generatePath E k cfg (asList p) (asList q) star) \<noteq> - 1" for cfg star
    using assms(1) unfolding never_sentinel_def by blast
  show ?thesis
  proof (cases pp)
    case None
    with assms(2) distEuclidean_not_sentinel(1) [of p q] show ?thesis
      by (auto simp: compute_path_def raw_path_def)
  next
    case (Some cfg)
    with assms(2) distEuclidean_not_sentinel(1) [of p q] a [of cfg] r [of cfg "m = ''rrtstar''"]
    show ?thesis
      by (auto simp: compute_path_def raw_path_def split: option.splits if_splits prod.splits)
  qed
qed

lemma pair_step_sets:
  assumes "pair_step E vps pp S (a, b) = Inr S'" "never_sentinel E" "square n (distances S)"
    and "c < n" "d < n"
  shows "(distances S ! c ! d \<noteq> - 1 \<longrightarrow> distances S' ! c ! d \<noteq> - 1) \<and>
         ((c, d) = (a, b) \<and> a \<noteq> b \<longrightarrow> distances S' ! c ! d \<noteq> - 1)"
  using assms(1)
proof (cases rule: pair_step_cases)
  case skip
  then show ?thesis by auto
next
  case los
  show ?thesis unfolding los(4)
    using assms(3-) los(1) distEuclidean_not_sentinel
    by (auto simp: store_cell [of n])
next
  case deferred
  show ?thesis unfolding deferred(5)
    using assms(3-) deferred(1) distEuclidean_not_sentinel
    by (auto simp: store_cell [of n])
next
  case (planned cfg path v)
  from compute_path_not_sentinel [OF assms(2) planned(6)] have "v \<noteq> - 1" .
  then show ?thesis unfolding planned(7)
    using assms(3-) planned(1) by (auto simp: store_cell [of n])
qed

lemma run_pairs_sets:
  assumes "run_pairs E vps pp S ps = Inr S'" "never_sentinel E" "square n (distances S)"
    and "a < n" "b < n" "a \<noteq> b"
  shows "(distances S ! a ! b \<noteq> - 1 \<or> (a, b) \<in> set ps) \<longrightarrow> distances S' ! a ! b \<noteq> - 1"
  using assms(1,3)
proof (induction ps arbitrary: S)
  case Nil
  then show ?case by simp
next
  case (Cons p ps)
  obtain c d where p: "p = (c, d)" by (cases p)
  from Cons.prems(1) obtain S1 where
    s1: "pair_step E vps pp S (c, d) = Inr S1" and r: "run_pairs E vps pp S1 ps = Inr S'"
    by (auto simp: p split: sum.splits)
  note sq1 = pair_step_square [OF s1 Cons.prems(2)]
  from pair_step_sets [OF s1 assms(2) Cons.prems(2) assms(4,5)] assms(6)
    Cons.IH [OF r sq1] p
  show ?case by auto
qed

subsection \<open>A deferred pair keeps its straight segment\<close>

lemma store_keeps_deferred:
  assumes "deferred_straight n vps S" "square n (distances S)"
    and "symmetric_zero_diagonal n (distances S)"
    and "a < n" "b < n" "a \<noteq> b" "distances S ! a ! b = - 1"
    and "distances S0 = distances S" "paths S0 = paths S"
    and cd: "(c, d) \<in> set (tooFarAwayPairs S)"
  shows "c < n \<and> d < n \<and> distances (store S0 a b g2 path v) ! c ! d \<noteq> - 1 \<and>
         paths (store S0 a b g2 path v) (c, d) = Some [pose (vps ! c), pose (vps ! d)]"
proof -
  from cd assms(1) have r: "c < n" "d < n" and set: "distances S ! c ! d \<noteq> - 1"
    and p: "paths S (c, d) = Some [pose (vps ! c), pose (vps ! d)]"
    by (auto simp: deferred_straight_def)
  from assms(3,4,5,7) have "distances S ! b ! a = - 1"
    by (simp add: symmetric_zero_diagonal_def)
  with set assms(7) have ne: "\<not> (c = a \<and> d = b)" "\<not> (c = b \<and> d = a)" by auto
  have sq0: "square n (distances S0)" using assms(2,8) by simp
  have "distances (store S0 a b g2 path v) ! c ! d = distances S ! c ! d"
    using r ne assms(6,8) by (auto simp: store_cell [OF sq0])
  moreover have "paths (store S0 a b g2 path v) (c, d) = paths S (c, d)"
    using ne assms(6,9) by (auto simp: store_path)
  ultimately show ?thesis using r set p by simp
qed

lemma store_new_deferred:
  assumes "square n (distances S0)" "a < n" "b < n" "a \<noteq> b"
    and "(c, d) = (a, b) \<or> (c, d) = (b, a)"
  shows "c < n \<and> d < n \<and>
         distances (store S0 a b (pose (vps ! b)) [pose (vps ! a), pose (vps ! b)]
                      (distEuclidean (pose (vps ! a)) (pose (vps ! b)) * 3)) ! c ! d \<noteq> - 1 \<and>
         paths (store S0 a b (pose (vps ! b)) [pose (vps ! a), pose (vps ! b)]
                      (distEuclidean (pose (vps ! a)) (pose (vps ! b)) * 3)) (c, d) =
           Some [pose (vps ! c), pose (vps ! d)]"
  using assms distEuclidean_not_sentinel(2) [of "pose (vps ! a)" "pose (vps ! b)"]
  by (auto simp: store_cell [OF assms(1)] store_path set_last_heading_segment)

lemma pair_step_deferred_straight:
  assumes "pair_step E vps pp S (a, b) = Inr S'" "square n (distances S)"
    and "symmetric_zero_diagonal n (distances S)" "deferred_straight n vps S" "a < n" "b < n"
  shows "deferred_straight n vps S'"
  using assms(1)
proof (cases rule: pair_step_cases)
  case skip
  with assms show ?thesis by simp
next
  case los
  show ?thesis unfolding los(4) deferred_straight_def
  proof (intro ballI, clarify)
    fix c d assume "(c, d) \<in> set (tooFarAwayPairs (store (S\<lparr>calls := calls S @
      [(''euclidean'', pose (vps ! a), pose (vps ! b))]\<rparr>) a b (pose (vps ! b))
      [pose (vps ! a), pose (vps ! b)] (distEuclidean (pose (vps ! a)) (pose (vps ! b)))))"
    then have "(c, d) \<in> set (tooFarAwayPairs S)" by simp
    then show "c < n \<and> d < n \<and> distances (store (S\<lparr>calls := calls S @
      [(''euclidean'', pose (vps ! a), pose (vps ! b))]\<rparr>) a b (pose (vps ! b))
      [pose (vps ! a), pose (vps ! b)] (distEuclidean (pose (vps ! a)) (pose (vps ! b)))) ! c ! d \<noteq> - 1
      \<and> paths (store (S\<lparr>calls := calls S @
      [(''euclidean'', pose (vps ! a), pose (vps ! b))]\<rparr>) a b (pose (vps ! b))
      [pose (vps ! a), pose (vps ! b)] (distEuclidean (pose (vps ! a)) (pose (vps ! b)))) (c, d) =
        Some [pose (vps ! c), pose (vps ! d)]"
      by (intro store_keeps_deferred [OF assms(4,2,3,5,6) los(1,2)]) simp_all
  qed
next
  case (planned cfg path v)
  show ?thesis unfolding planned(7) deferred_straight_def
  proof (intro ballI, clarify)
    fix c d assume "(c, d) \<in> set (tooFarAwayPairs (store (S\<lparr>calls := calls S @
      [(''euclidean'', pose (vps ! a), pose (vps ! b)),
       (path_planning_method cfg, pose (vps ! a), pose (vps ! b))]\<rparr>) a b (pose (vps ! b)) path v))"
    then have "(c, d) \<in> set (tooFarAwayPairs S)" by simp
    then show "c < n \<and> d < n \<and> distances (store (S\<lparr>calls := calls S @
      [(''euclidean'', pose (vps ! a), pose (vps ! b)),
       (path_planning_method cfg, pose (vps ! a), pose (vps ! b))]\<rparr>) a b (pose (vps ! b)) path v)
       ! c ! d \<noteq> - 1
      \<and> paths (store (S\<lparr>calls := calls S @
      [(''euclidean'', pose (vps ! a), pose (vps ! b)),
       (path_planning_method cfg, pose (vps ! a), pose (vps ! b))]\<rparr>) a b (pose (vps ! b)) path v)
       (c, d) = Some [pose (vps ! c), pose (vps ! d)]"
      by (intro store_keeps_deferred [OF assms(4,2,3,5,6) planned(1,2)]) simp_all
  qed
next
  case deferred
  let ?g1 = "pose (vps ! a)" and ?g2 = "pose (vps ! b)"
  let ?S0 = "S\<lparr>calls := calls S @ [(''euclidean'', ?g1, ?g2)],
                tooFarAwayPairs := tooFarAwayPairs S @ [(a, b), (b, a)],
                tooFarAwayDistances := (tooFarAwayDistances S)
                  ((a, b) \<mapsto> distEuclidean ?g1 ?g2, (b, a) \<mapsto> distEuclidean ?g1 ?g2)\<rparr>"
  let ?S' = "store ?S0 a b ?g2 [?g1, ?g2] (distEuclidean ?g1 ?g2 * 3)"
  have sq0: "square n (distances ?S0)" using assms(2) by simp
  show ?thesis
    unfolding deferred(5) deferred_straight_def
  proof (intro ballI, clarify)
    fix c d assume "(c, d) \<in> set (tooFarAwayPairs ?S')"
    then consider "(c, d) \<in> set (tooFarAwayPairs S)" | "(c, d) = (a, b) \<or> (c, d) = (b, a)"
      by auto
    then show "c < n \<and> d < n \<and> distances ?S' ! c ! d \<noteq> - 1 \<and>
        paths ?S' (c, d) = Some [pose (vps ! c), pose (vps ! d)]"
    proof cases
      case 1
      then show ?thesis
        by (intro store_keeps_deferred [OF assms(4,2,3,5,6) deferred(1,2)]) simp_all
    next
      case 2
      then show ?thesis
        by (rule store_new_deferred [OF sq0 assms(5,6) deferred(1)])
    qed
  qed
qed

lemma run_pairs_deferred_straight:
  assumes "run_pairs E vps pp S ps = Inr S'" "square n (distances S)"
    and "symmetric_zero_diagonal n (distances S)" "deferred_straight n vps S"
    and "\<forall>(c, d) \<in> set ps. c < n \<and> d < n"
  shows "deferred_straight n vps S'"
proof -
  let ?P = "\<lambda>T. square n (distances T) \<and> symmetric_zero_diagonal n (distances T)
                 \<and> deferred_straight n vps T"
  have "?P S'"
  proof (rule run_pairs_invariant [OF assms(1), where P = ?P])
    show "?P S" using assms(2-4) by simp
  next
    fix T c d T'
    assume cd: "(c, d) \<in> set ps" and T: "?P T" and st: "pair_step E vps pp T (c, d) = Inr T'"
    from cd assms(5) have r: "c < n" "d < n" by auto
    from T have sq: "square n (distances T)" and sy: "symmetric_zero_diagonal n (distances T)"
      and ds: "deferred_straight n vps T" by simp_all
    from pair_step_deferred_straight [OF st sq sy ds r]
      pair_step_square [OF st sq] pair_step_symmetric [OF st sq sy]
    show "?P T'" by simp
  qed
  then show ?thesis by simp
qed

lemma init_deferred_straight: "deferred_straight n vps (init_solver n)"
  by (simp add: deferred_straight_def init_solver_def)

lemma dist_B: "distEuclidean g0B g1B = 8"
  by (simp add: distEuclidean_def g0B_def g1B_def)

lemma pairs_2: "all_pairs 2 = [(0, 0), (0, 1), (1, 0), (1, 1)]"
  by (simp add: all_pairs_def upt_rec)

lemma init_2: "init_solver 2 = \<lparr>tooFarAwayPairs = [], tooFarAwayDistances = Map.empty,
      distances = [[0, - 1], [- 1, 0]], paths = Map.empty, calls = []\<rparr>"
  by (simp add: init_solver_def np_full_def fill_diagonal_def upt_rec numeral_2_eq_2)

lemma set_heading_same: "set_heading p (heading p) = p"
  by (cases p) (simp add: set_heading_def)

lemma to_pose_asList: "to_pose (asList p) = p"
  by (cases p) (simp add: to_pose_def asList_def)

lemma to_pose_mB: "to_pose (4, 3, 0, 0) = mB"
  by (simp add: to_pose_def mB_def)

lemma to_pose_eB: "to_pose (8, 0, 0, 0) = eB"
  by (simp add: to_pose_def eB_def)

lemma len_B: "length vpB = 2"
  by (simp add: vpB_def)

lemma build_B: "build_matrix envB vpB (Some cfgB) = Inr builtB"
  unfolding build_matrix_def len_B pairs_2 init_2
  by (simp add: vpB_def pair_step_def call_euclidean
      envB_def dist_B DIST_THRESHOLD_def store_def Let_def mat_set_def set_last_heading_def
      set_heading_same builtB_def)

lemma tour_B: "compute_tsp_tour envB vpB (Some cfgB) builtB = Inr ([g0B, mB, g1B, g0B], finalB)"
  by (simp add: compute_tsp_tour_def compute_tsp_sequence_def anchor_rotate_def envB_def
      resolve_step_def builtB_def vpB_def cfgB_def call_compute_path_def compute_path_def
      raw_path_def startswith_def to_pose_asList to_pose_mB to_pose_eB
      assemble_step_def Let_def upt_rec finalB_def)

lemma plan_B: "plan_tour_solver envB vpB (Some cfgB) = Inr ([g0B, mB, g1B, g0B], finalB)"
  by (simp add: plan_tour_solver_def setup_solver_def cfgB_def ALLOWED_PATH_PLANNERS_def
        ALLOWED_DISTANCE_ESTIMATION_METHODS_def build_B [unfolded cfgB_def] tour_B [unfolded cfgB_def])

text \<open>
  Claim C7. After any number of iterations of the pairwise loop of \<open>plan_tour\<close>, started
  on the freshly initialised matrix (\<open>ps\<close> is any list of pairs, so every prefix of the
  loop's pairs is covered), the distance matrix is symmetric and its diagonal is exactly
  zero; \<open>compute_tsp_tour\<close> then leaves the matrix as it found it.
\<close>

theorem distances_symmetric_zero_diagonal:
  assumes "run_pairs E vps pp (init_solver (length vps)) ps = Inr S"
  shows "(\<forall>a<length vps. \<forall>b<length vps. distances S ! a ! b = distances S ! b ! a) \<and>
         (\<forall>a<length vps. distances S ! a ! a = 0) \<and>
         (\<forall>tour S'. compute_tsp_tour E vps pp S = Inr (tour, S') \<longrightarrow> distances S' = distances S)"
proof -
  from run_pairs_symmetric [OF assms init_square init_symmetric]
  have "symmetric_zero_diagonal (length vps) (distances S)" by simp
  then show ?thesis
    unfolding symmetric_zero_diagonal_def by (auto dest: compute_tsp_tour_keeps)
qed

theorem distances_symmetric_zero_diagonal_witness:
  "run_pairs envB vpB (Some cfgB) (init_solver (length vpB)) (all_pairs 2) = Inr builtB \<and>
   distances builtB ! 0 ! 1 = distances builtB ! 1 ! 0 \<and>
   distances builtB ! 0 ! 0 = 0 \<and> distances builtB ! 1 ! 1 = 0 \<and>
   compute_tsp_tour envB vpB (Some cfgB) builtB = Inr ([g0B, mB, g1B, g0B], finalB) \<and>
   distances finalB = distances builtB"
proof -
  have r: "run_pairs envB vpB (Some cfgB) (init_solver (length vpB)) (all_pairs 2) = Inr builtB"
    using build_B by (simp add: build_matrix_def len_B)
  from distances_symmetric_zero_diagonal [OF r] tour_B r show ?thesis
    by (simp add: len_B)
qed

text \<open>
  Claim C2 as stated fails in Scenario B of the spec: two viewpoints 8 apart without line
  of sight. The pair is deferred with the placeholder 24; the oracle selects the edge, the
  planner is called for it and returns length 10, and the matrix cell is still 24.
\<close>

theorem resolved_distance_counterexample:
  "plan_tour_solver envB vpB (Some cfgB) = Inr ([g0B, mB, g1B, g0B], finalB) \<and>
   (0, 1) \<in> set (tooFarAwayPairs finalB) \<and>
   (''rrt'', g0B, g1B) \<in> set (calls finalB) \<and>
   snd (rrt_generatePath envB 1 cfgB (asList g0B) (asList g1B) False) = 10 \<and>
   distances finalB ! 0 ! 1 = 24"
  using plan_B by (simp add: finalB_def builtB_def envB_def)

lemma never_sentinel_B: "never_sentinel envB"
  by (simp add: never_sentinel_def envB_def)

text \<open>
  Claim C10. After the pairwise loop of \<open>plan_tour\<close>: no off-diagonal cell holds the
  sentinel \<open>-1\<close> (given that no planner call reports the length \<open>-1\<close>: the length of a path
  is not negative); every ordered pair of distinct viewpoints has a path stored in both
  directions; and the path stored for a deferred pair is the straight two-pose segment.
\<close>

theorem build_matrix_complete:
  assumes "build_matrix E vps pp = Inr S"
  shows "(never_sentinel E \<longrightarrow>
           (\<forall>a<length vps. \<forall>b<length vps. a \<noteq> b \<longrightarrow> distances S ! a ! b \<noteq> - 1)) \<and>
         (\<forall>a<length vps. \<forall>b<length vps. a \<noteq> b \<longrightarrow>
            paths S (a, b) \<noteq> None \<and> paths S (b, a) \<noteq> None) \<and>
         (\<forall>(a, b) \<in> set (tooFarAwayPairs S).
            paths S (a, b) = Some [pose (vps ! a), pose (vps ! b)])"
proof (intro conjI impI allI)
  let ?n = "length vps"
  note run = assms [unfolded build_matrix_def]
  {
    fix a b assume ns: "never_sentinel E" and r: "a < ?n" "b < ?n" "a \<noteq> b"
    from r have "(a, b) \<in> set (all_pairs ?n)" by (simp add: all_pairs_in_range)
    with run_pairs_sets [OF run ns init_square r]
    show "distances S ! a ! b \<noteq> - 1" by simp
  }
  {
    fix a b assume r: "a < ?n" "b < ?n" "a \<noteq> b"
    from r have "(a, b) \<in> set (all_pairs ?n)" by (simp add: all_pairs_in_range)
    from run_pairs_cover [OF run init_square init_cover this r]
    show "paths S (a, b) \<noteq> None" "paths S (b, a) \<noteq> None" by simp_all
  }
  have rng: "\<forall>(c, d) \<in> set (all_pairs ?n). c < ?n \<and> d < ?n"
    by (auto simp: all_pairs_in_range)
  from run_pairs_deferred_straight [OF run init_square init_symmetric init_deferred_straight rng]
  show "\<forall>(a, b) \<in> set (tooFarAwayPairs S).
            paths S (a, b) = Some [pose (vps ! a), pose (vps ! b)]"
    by (auto simp: deferred_straight_def)
qed

theorem build_matrix_complete_witness:
  "build_matrix envB vpB (Some cfgB) = Inr builtB \<and> never_sentinel envB \<and>
   distances builtB ! 0 ! 1 \<noteq> - 1 \<and> distances builtB ! 1 ! 0 \<noteq> - 1 \<and>
   paths builtB (0, 1) \<noteq> None \<and> paths builtB (1, 0) \<noteq> None \<and>
   (0, 1) \<in> set (tooFarAwayPairs builtB) \<and>
   paths builtB (0, 1) = Some [pose (vpB ! 0), pose (vpB ! 1)]"
  using build_matrix_complete [OF build_B] build_B never_sentinel_B
  by (simp add: builtB_def vpB_def)








lemma dist_W:
  "distEuclidean g0W g1W = 10" "distEuclidean g0W g2W = 8" "distEuclidean g1W g2W = 6"
proof -
  have "sqrt 100 = 10" "sqrt 64 = 8" "sqrt 36 = 6"
    by (simp_all add: real_sqrt_unique)
  then show "distEuclidean g0W g1W = 10" "distEuclidean g0W g2W = 8" "distEuclidean g1W g2W = 6"
    by (simp_all add: distEuclidean_def g0W_def g1W_def g2W_def)
qed

lemma pairs_3: "all_pairs 3 = [(0, 0), (0, 1), (0, 2), (1, 0), (1, 1), (1, 2), (2, 0), (2, 1), (2, 2)]"
  by (simp add: all_pairs_def upt_rec)

lemma init_3: "init_solver 3 = \<lparr>tooFarAwayPairs = [], tooFarAwayDistances = Map.empty,
      distances = [[0, - 1, - 1], [- 1, 0, - 1], [- 1, - 1, 0]], paths = Map.empty, calls = []\<rparr>"
  by (simp add: init_solver_def np_full_def fill_diagonal_def upt_rec numeral_3_eq_3)

lemma len_W: "length vpW = 3"
  by (simp add: vpW_def)

lemma asList_W: "asList g0W \<noteq> asList g1W" "asList g1W \<noteq> asList g2W" "asList g1W \<noteq> asList g0W"
  by (simp_all add: asList_def g0W_def g1W_def g2W_def)

lemma build_W: "build_matrix envW vpW (Some cfgB) = Inr builtW"
  unfolding build_matrix_def len_W pairs_3 init_3
  by (simp add: vpW_def pair_step_def call_euclidean
      envW_def dist_W DIST_THRESHOLD_def store_def Let_def mat_set_def set_last_heading_def
      set_heading_same builtW_def asList_W)

lemma tour_W: "compute_tsp_tour envW vpW (Some cfgB) builtW = Inr ([g0W, g1W, g2W, g0W], builtW)"
  by (simp add: compute_tsp_tour_def compute_tsp_sequence_def anchor_rotate_def envW_def
      resolve_step_def builtW_def vpW_def assemble_step_def Let_def upt_rec)

lemma plan_W: "plan_tour_solver envW vpW (Some cfgB) = Inr ([g0W, g1W, g2W, g0W], builtW)"
  by (simp add: plan_tour_solver_def setup_solver_def cfgB_def ALLOWED_PATH_PLANNERS_def
        ALLOWED_DISTANCE_ESTIMATION_METHODS_def build_W [unfolded cfgB_def] tour_W [unfolded cfgB_def])

text \<open>
  Claim C1 fails on the code. Three viewpoints; only the pair (0, 2) has no line of sight
  and is 8 apart, so it is deferred. The oracle's order 0, 1, 2 closes the loop with the
  edge (2, 0), which is in \<open>tooFarAwayPairs\<close>. The loop of lines 243-253 runs over
  \<open>range(1, len(sequence))\<close> and never looks at that edge: the planner is not called
  at all (the log holds the three Euclidean estimates only), and the returned tour goes
  from viewpoint 2 straight back to viewpoint 0 along the stored placeholder segment.
\<close>

theorem wrap_around_edge_not_resolved:
  "plan_tour envW vpW (Some cfgB) = Inr [g0W, g1W, g2W, g0W] \<and>
   plan_tour_solver envW vpW (Some cfgB) = Inr ([g0W, g1W, g2W, g0W], builtW) \<and>
   compute_tsp_sequence envW builtW = [Some 0, Some 1, Some 2] \<and>
   (2, 0) \<in> set (tooFarAwayPairs builtW) \<and>
   paths builtW (2, 0) = Some [g2W, g0W] \<and>
   calls builtW = [(''euclidean'', g0W, g1W), (''euclidean'', g0W, g2W), (''euclidean'', g1W, g2W)]"
  using plan_W
  by (simp add: plan_tour_def builtW_def compute_tsp_sequence_def anchor_rotate_def envW_def)

text \<open>
  Claim C3 fails on the code after a deferred pair is resolved. In Scenario B the pair
  (0, 1) is resolved: line 252 overwrites \<open>paths[(0, 1)]\<close> with the planner's path and
  nothing else, so \<open>paths[(1, 0)]\<close> is still the reversed straight segment, not the
  reverse of the new path, and the last pose of the new path keeps the planner's heading.
\<close>

theorem resolution_breaks_reverse:
  "plan_tour_solver envB vpB (Some cfgB) = Inr ([g0B, mB, g1B, g0B], finalB) \<and>
   paths finalB (0, 1) = Some [g0B, mB, eB] \<and>
   paths finalB (1, 0) = Some [g1B, g0B] \<and>
   rev [g0B, mB, eB] \<noteq> [g1B, g0B] \<and>
   heading (last [g0B, mB, eB]) \<noteq> heading (pose (vpB ! 1))"
  using plan_B by (simp add: finalB_def builtB_def eB_def g1B_def vpB_def)

text \<open>
  Before the tour is computed, every stored path has its reverse stored with it: the
  pairwise loop always writes the two directions together.
\<close>

lemma build_reversed:
  "build_matrix E vps pp = Inr S \<Longrightarrow> paths S (a, b) = Some p \<Longrightarrow> paths S (b, a) = Some (rev p)"
  using run_pairs_reversed [OF _ init_reversed, of E vps pp "length vps" _ S]
  by (auto simp: build_matrix_def paths_reversed_def)

subsection \<open>An empty order\<close>

lemma empty_order_aborts:
  assumes "lkh E (distances S) = []" "0 < length (distances S)"
  shows "compute_tsp_tour E vps pp S = Inl IndexError"
proof -
  have upt: "[0..<length (distances S)] = 0 # [1..<length (distances S)]"
    using assms(2) by (simp add: upt_conv_Cons)
  show ?thesis
    unfolding compute_tsp_tour_def compute_tsp_sequence_def assms(1)
    by (simp add: anchor_rotate_def Let_def upt assemble_step_def)
qed

lemma build_length:
  assumes "build_matrix E vps pp = Inr S"
  shows "length (distances S) = length vps"
  using run_pairs_symmetric [OF assms [unfolded build_matrix_def] init_square init_symmetric]
  by (simp add: square_def)

lemma empty_order_session_aborts:
  assumes "\<forall>m. lkh E m = []" "vps \<noteq> []"
  shows "\<exists>e. plan_tour E vps pp = Inl e"
proof (cases "setup_solver pp")
  case (Inl e)
  then show ?thesis by (simp add: plan_tour_def plan_tour_solver_def)
next
  case (Inr u)
  show ?thesis
  proof (cases "build_matrix E vps pp")
    case (Inl e)
    with Inr show ?thesis by (simp add: plan_tour_def plan_tour_solver_def)
  next
    case built: (Inr S)
    from build_length [OF built] assms(2) have "0 < length (distances S)" by simp
    from empty_order_aborts [OF _ this, of E vps pp] assms(1)
    have "compute_tsp_tour E vps pp S = Inl IndexError" by simp
    with Inr built show ?thesis by (simp add: plan_tour_def plan_tour_solver_def)
  qed
qed

text \<open>
  Claim C8, as amended. When the oracle's order holds the anchor, \<open>compute_tsp_sequence\<close>
  returns a rotation of it that begins at the anchor. An order without anchor is returned
  as it is. An empty order is fatal: with at least one viewpoint, the tour assembly reads
  \<open>sequence[0]\<close> and the session ends with an IndexError.
\<close>

theorem compute_tsp_sequence_rotates:
  "(None \<in> set (lkh E (distances S)) \<longrightarrow>
      hd (compute_tsp_sequence E S) = None \<and>
      (\<exists>i<length (lkh E (distances S)). compute_tsp_sequence E S = rotate i (lkh E (distances S)))) \<and>
   (None \<notin> set (lkh E (distances S)) \<longrightarrow> compute_tsp_sequence E S = lkh E (distances S)) \<and>
   (lkh E (distances S) = [] \<and> 0 < length (distances S) \<longrightarrow>
      compute_tsp_tour E vps pp S = Inl IndexError) \<and>
   ((\<forall>m. lkh E m = []) \<and> vps \<noteq> [] \<longrightarrow> (\<exists>e. plan_tour E vps pp = Inl e))"
proof (intro conjI impI)
  assume a: "None \<in> set (lkh E (distances S))"
  from anchor_rotate_hd [OF a] show "hd (compute_tsp_sequence E S) = None"
    by (simp add: compute_tsp_sequence_def)
  from anchor_rotate_anchored [OF a]
  show "\<exists>i<length (lkh E (distances S)). compute_tsp_sequence E S = rotate i (lkh E (distances S))"
    unfolding compute_tsp_sequence_def by blast
next
  assume "None \<notin> set (lkh E (distances S))"
  then show "compute_tsp_sequence E S = lkh E (distances S)"
    by (simp add: compute_tsp_sequence_def anchor_rotate_no_anchor)
next
  assume "lkh E (distances S) = [] \<and> 0 < length (distances S)"
  then show "compute_tsp_tour E vps pp S = Inl IndexError"
    by (simp add: empty_order_aborts)
next
  assume "(\<forall>m. lkh E m = []) \<and> vps \<noteq> []"
  then show "\<exists>e. plan_tour E vps pp = Inl e"
    using empty_order_session_aborts [of E vps pp] by blast
qed

theorem compute_tsp_sequence_rotates_witness:
  "None \<in> set (lkh envR (distances builtB)) \<and>
   hd (compute_tsp_sequence envR builtB) = None \<and>
   compute_tsp_sequence envR builtB = [None, Some 0, Some 1] \<and>
   None \<notin> set (lkh envB (distances builtB)) \<and>
   compute_tsp_sequence envB builtB = lkh envB (distances builtB) \<and>
   lkh envEmpty (distances builtB) = [] \<and> 0 < length (distances builtB) \<and>
   compute_tsp_tour envEmpty vpB (Some cfgB) builtB = Inl IndexError \<and>
   vpB \<noteq> [] \<and> plan_tour envEmpty vpB (Some cfgB) = Inl IndexError"
proof -
  have e: "lkh envEmpty (distances builtB) = []" "0 < length (distances builtB)"
    by (simp_all add: envEmpty_def builtB_def)
  have b: "build_matrix envEmpty vpB (Some cfgB) = Inr builtB"
    unfolding build_matrix_def len_B pairs_2 init_2
    by (simp add: vpB_def pair_step_def call_euclidean
      envB_def envEmpty_def dist_B DIST_THRESHOLD_def store_def Let_def mat_set_def
      set_last_heading_def set_heading_same builtB_def)
  from compute_tsp_sequence_rotates [of envEmpty builtB vpB "Some cfgB"] e
  have t: "compute_tsp_tour envEmpty vpB (Some cfgB) builtB = Inl IndexError" by blast
  have p: "plan_tour envEmpty vpB (Some cfgB) = Inl IndexError"
    by (simp add: plan_tour_def plan_tour_solver_def setup_solver_def cfgB_def
        ALLOWED_PATH_PLANNERS_def ALLOWED_DISTANCE_ESTIMATION_METHODS_def
        b [unfolded cfgB_def] t [unfolded cfgB_def])
  from compute_tsp_sequence_rotates [of envR builtB vpB "Some cfgB"]
       compute_tsp_sequence_rotates [of envB builtB vpB "Some cfgB"] e t p
  show ?thesis
    by (simp add: envR_def envB_def compute_tsp_sequence_def anchor_rotate_def vpB_def)
qed

text \<open>
  Claim C8 as stated fails for an order without anchor: the order is returned unchanged and
  the session returns a tour.
\<close>

theorem anchorless_sequence_counterexample:
  "lkh envB (distances builtB) = [Some 0, Some 1] \<and>
   compute_tsp_sequence envB builtB = [Some 0, Some 1] \<and>
   build_matrix envB vpB (Some cfgB) = Inr builtB \<and>
   plan_tour envB vpB (Some cfgB) = Inr [g0B, mB, g1B, g0B]"
  using plan_B build_B
  by (simp add: plan_tour_def envB_def compute_tsp_sequence_def anchor_rotate_def)

subsection \<open>What resolving a deferred pair writes\<close>

lemma resolve_step_shape:
  assumes "resolve_step E vps pp sequence S i = Inr S'"
    and "sequence ! (i - 1) = Some a" "sequence ! i = Some b"
    and "(a, b) \<in> set (tooFarAwayPairs S)"
  shows "\<exists>cfg path d. pp = Some cfg \<and>
           compute_path E (length (calls S)) (pose (vps ! a)) (pose (vps ! b)) pp
             (path_planning_method cfg) = Inr (path, d) \<and>
           S' = S\<lparr>calls := calls S @ [(path_planning_method cfg, pose (vps ! a), pose (vps ! b))],
                   paths := (paths S)((a, b) \<mapsto> path)\<rparr>"
proof -
  from assms obtain cfg where cfg: "pp = Some cfg"
    by (cases pp) (auto simp: resolve_step_def split: if_splits)
  from assms cfg show ?thesis
    by (auto simp: resolve_step_def call_compute_path_def split: if_splits sum.splits)
qed

lemma resolve_step_resolves:
  assumes "resolve_step E vps pp sequence S i = Inr S'"
    and "sequence ! (i - 1) = Some a" "sequence ! i = Some b"
    and "(a, b) \<in> set (tooFarAwayPairs S)"
  shows "resolved E vps pp a b S'"
proof -
  from resolve_step_shape [OF assms] obtain cfg path d where
    "pp = Some cfg"
    "compute_path E (length (calls S)) (pose (vps ! a)) (pose (vps ! b)) pp
           (path_planning_method cfg) = Inr (path, d)"
    "S' = S\<lparr>calls := calls S @ [(path_planning_method cfg, pose (vps ! a), pose (vps ! b))],
                   paths := (paths S)((a, b) \<mapsto> path)\<rparr>"
    by blast
  then have "pp = Some cfg \<and>
        compute_path E (length (calls S)) (pose (vps ! a)) (pose (vps ! b)) pp
          (path_planning_method cfg) = Inr (path, d) \<and>
        paths S' (a, b) = Some path \<and>
        (path_planning_method cfg, pose (vps ! a), pose (vps ! b)) \<in> set (calls S')"
    by simp
  then show ?thesis unfolding resolved_def by blast
qed

lemma resolve_step_keeps_resolved:
  assumes "resolve_step E vps pp sequence S j = Inr S'" "resolved E vps pp a b S"
  shows "resolved E vps pp a b S'"
proof (cases "S' = S")
  case True
  with assms(2) show ?thesis by simp
next
  case False
  with assms(1) obtain a' b' where
    ab: "sequence ! (j - 1) = Some a'" "sequence ! j = Some b'"
        "(a', b') \<in> set (tooFarAwayPairs S)"
    by (auto simp: resolve_step_def split: option.splits if_splits)
  show ?thesis
  proof (cases "(a', b') = (a, b)")
    case True
    with resolve_step_resolves [OF assms(1) ab] show ?thesis by simp
  next
    case other: False
    from resolve_step_shape [OF assms(1) ab] obtain cfg path d' where
      "pp = Some cfg"
      "compute_path E (length (calls S)) (pose (vps ! a')) (pose (vps ! b')) pp
         (path_planning_method cfg) = Inr (path, d')"
      and S': "S' = S\<lparr>calls := calls S @ [(path_planning_method cfg, pose (vps ! a'), pose (vps ! b'))],
                   paths := (paths S)((a', b') \<mapsto> path)\<rparr>"
      by blast
    from assms(2) obtain k c p d where
      r: "pp = Some c"
         "compute_path E k (pose (vps ! a)) (pose (vps ! b)) pp (path_planning_method c) = Inr (p, d)"
         "paths S (a, b) = Some p"
         "(path_planning_method c, pose (vps ! a), pose (vps ! b)) \<in> set (calls S)"
      unfolding resolved_def by blast
    from r other have "pp = Some c \<and>
        compute_path E k (pose (vps ! a)) (pose (vps ! b)) pp (path_planning_method c) = Inr (p, d) \<and>
        paths S' (a, b) = Some p \<and>
        (path_planning_method c, pose (vps ! a), pose (vps ! b)) \<in> set (calls S')"
      by (auto simp: S')
    then show ?thesis unfolding resolved_def by blast
  qed
qed

lemma resolve_loop_keeps_resolved:
  "resolve_loop E vps pp sequence S js = Inr S' \<Longrightarrow> resolved E vps pp a b S \<Longrightarrow>
   resolved E vps pp a b S'"
proof (induction js arbitrary: S)
  case Nil
  then show ?case by simp
next
  case (Cons j js)
  from Cons.prems(1) obtain S1 where
    s: "resolve_step E vps pp sequence S j = Inr S1"
    and r: "resolve_loop E vps pp sequence S1 js = Inr S'"
    by (auto split: sum.splits)
  from Cons.IH [OF r resolve_step_keeps_resolved [OF s Cons.prems(2)]] show ?case .
qed

lemma resolve_loop_resolves:
  assumes "resolve_loop E vps pp sequence S js = Inr S'" "i \<in> set js"
    and "sequence ! (i - 1) = Some a" "sequence ! i = Some b"
    and "(a, b) \<in> set (tooFarAwayPairs S)"
  shows "resolved E vps pp a b S'"
  using assms(1,2,5)
proof (induction js arbitrary: S)
  case Nil
  then show ?case by simp
next
  case (Cons j js)
  from Cons.prems(1) obtain S1 where
    s: "resolve_step E vps pp sequence S j = Inr S1"
    and r: "resolve_loop E vps pp sequence S1 js = Inr S'"
    by (auto split: sum.splits)
  show ?case
  proof (cases "i = j")
    case True
    with s have "resolve_step E vps pp sequence S i = Inr S1" by simp
    from resolve_step_resolves [OF this assms(3,4) Cons.prems(3)]
    have "resolved E vps pp a b S1" .
    from resolve_loop_keeps_resolved [OF r this] show ?thesis .
  next
    case False
    with Cons.prems(2) have "i \<in> set js" by simp
    moreover from resolve_step_keeps [OF s] Cons.prems(3)
    have "(a, b) \<in> set (tooFarAwayPairs S1)" by simp
    ultimately show ?thesis using Cons.IH [OF r] by blast
  qed
qed

text \<open>
  Claim C2, as amended. When a pair that is registered as deferred lies on the tour at the
  positions \<open>i - 1\<close> and \<open>i\<close> of the sequence (\<open>i\<close> from 1), \<open>compute_tsp_tour\<close>
  calls \<open>compute_path\<close> with the configured method for exactly that pair and stores the
  path it returns as \<open>paths[(a, b)]\<close>; the length it returns is discarded (the \<open>_\<close> of
  line 252) and the distance matrix is not written.
\<close>

theorem resolution_overwrites_path_keeps_distances:
  assumes "compute_tsp_tour E vps pp S = Inr (tour, S')"
    and "0 < i" "i < length (compute_tsp_sequence E S)"
    and "compute_tsp_sequence E S ! (i - 1) = Some a" "compute_tsp_sequence E S ! i = Some b"
    and "(a, b) \<in> set (tooFarAwayPairs S)"
  shows "distances S' = distances S \<and>
         (\<exists>k cfg path d. pp = Some cfg \<and>
            compute_path E k (pose (vps ! a)) (pose (vps ! b)) pp (path_planning_method cfg)
              = Inr (path, d) \<and>
            paths S' (a, b) = Some path \<and>
            (path_planning_method cfg, pose (vps ! a), pose (vps ! b)) \<in> set (calls S'))"
proof -
  from assms(1) have r: "resolve_loop E vps pp (compute_tsp_sequence E S) S
          [1..<length (compute_tsp_sequence E S)] = Inr S'"
    by (auto simp: compute_tsp_tour_def Let_def split: sum.splits)
  from assms(2,3) have "i \<in> set [1..<length (compute_tsp_sequence E S)]" by simp
  from resolve_loop_resolves [OF r this assms(4,5,6)] compute_tsp_tour_keeps [OF assms(1)]
  show ?thesis unfolding resolved_def by simp
qed

theorem resolution_overwrites_path_keeps_distances_witness:
  "compute_tsp_tour envB vpB (Some cfgB) builtB = Inr ([g0B, mB, g1B, g0B], finalB) \<and>
   compute_tsp_sequence envB builtB = [Some 0, Some 1] \<and>
   (0, 1) \<in> set (tooFarAwayPairs builtB) \<and>
   distances finalB = distances builtB \<and>
   paths finalB (0, 1) = Some [g0B, mB, eB] \<and>
   compute_path envB 1 g0B g1B (Some cfgB) ''rrt'' = Inr ([g0B, mB, eB], 10) \<and>
   (''rrt'', g0B, g1B) \<in> set (calls finalB)"
proof -
  have s: "compute_tsp_sequence envB builtB = [Some 0, Some 1]"
    by (simp add: compute_tsp_sequence_def anchor_rotate_def envB_def)
  have m: "(0, 1) \<in> set (tooFarAwayPairs builtB)" by (simp add: builtB_def)
  have c: "compute_path envB 1 g0B g1B (Some cfgB) ''rrt'' = Inr ([g0B, mB, eB], 10)"
    by (simp add: compute_path_def raw_path_def startswith_def envB_def to_pose_asList
          to_pose_mB to_pose_eB)
  from resolution_overwrites_path_keeps_distances [OF tour_B, of 1 0 1] s m
  have "distances finalB = distances builtB" by simp
  with tour_B s m c show ?thesis by (simp add: finalB_def)
qed

subsection \<open>Paths that begin at their source pose\<close>





lemma paths_start_update [simp]:
  "paths_start vps (S\<lparr>calls := c\<rparr>) = paths_start vps S"
  "paths_start vps (S\<lparr>tooFarAwayPairs := t\<rparr>) = paths_start vps S"
  "paths_start vps (S\<lparr>tooFarAwayDistances := u\<rparr>) = paths_start vps S"
  by (simp_all add: paths_start_def)




















subsection \<open>The registry only grows, and a set cell keeps its registry entry\<close>

lemma pair_step_registry:
  assumes "pair_step E vps pp S (c, d) = Inr S'"
  shows "set (tooFarAwayPairs S) \<subseteq> set (tooFarAwayPairs S')"
    and "(a, b) \<noteq> (c, d) \<Longrightarrow> (a, b) \<noteq> (d, c) \<Longrightarrow>
         tooFarAwayDistances S' (a, b) = tooFarAwayDistances S (a, b)"
  using assms by (cases rule: pair_step_cases; auto)+

lemma pair_step_stable_registry:
  assumes "pair_step E vps pp S (c, d) = Inr S'"
    and "symmetric_zero_diagonal n (distances S)" "c < n" "d < n"
    and "distances S ! a ! b \<noteq> - 1"
  shows "tooFarAwayDistances S' (a, b) = tooFarAwayDistances S (a, b)"
proof (cases "c = d \<or> distances S ! c ! d \<noteq> - 1")
  case True
  with assms(1) show ?thesis by (simp add: pair_step_skip)
next
  case False
  then have unset: "distances S ! c ! d = - 1" by simp
  then have "distances S ! d ! c = - 1"
    using assms(2,3,4) by (simp add: symmetric_zero_diagonal_def)
  with unset assms(5) have "(a, b) \<noteq> (c, d)" "(a, b) \<noteq> (d, c)" by auto
  from pair_step_registry(2) [OF assms(1) this] show ?thesis .
qed

lemma run_pairs_registry:
  assumes "run_pairs E vps pp S ps = Inr S'" "square n (distances S)"
    and "symmetric_zero_diagonal n (distances S)" "a < n" "b < n"
    and "\<forall>(c, d) \<in> set ps. c < n \<and> d < n"
    and "distances S ! a ! b \<noteq> - 1"
  shows "set (tooFarAwayPairs S) \<subseteq> set (tooFarAwayPairs S') \<and>
         tooFarAwayDistances S' (a, b) = tooFarAwayDistances S (a, b)"
proof -
  let ?P = "\<lambda>T. square n (distances T) \<and> symmetric_zero_diagonal n (distances T)
                 \<and> distances T ! a ! b = distances S ! a ! b
                 \<and> set (tooFarAwayPairs S) \<subseteq> set (tooFarAwayPairs T)
                 \<and> tooFarAwayDistances T (a, b) = tooFarAwayDistances S (a, b)"
  have "?P S'"
  proof (rule run_pairs_invariant [OF assms(1), where P = ?P])
    show "?P S" using assms(2,3) by simp
  next
    fix T c d T'
    assume cd: "(c, d) \<in> set ps" and T: "?P T" and st: "pair_step E vps pp T (c, d) = Inr T'"
    from cd assms(6) have r: "c < n" "d < n" by auto
    from T have sq: "square n (distances T)" and sy: "symmetric_zero_diagonal n (distances T)"
      and ne: "distances T ! a ! b \<noteq> - 1" using assms(7) by simp_all
    from pair_step_stable [OF st sq sy assms(4,5) r ne]
      pair_step_square [OF st sq] pair_step_symmetric [OF st sq sy]
      pair_step_registry(1) [OF st] pair_step_stable_registry [OF st sy r ne] T
    show "?P T'" by auto
  qed
  then show ?thesis by simp
qed

text \<open>
  Claim C4. A pair \<open>a < b\<close> of viewpoints without line of sight is processed once by the
  pairwise loop of \<open>plan_tour\<close>, in the iteration \<open>(a, b)\<close> (the iteration \<open>(b, a)\<close> then finds
  the cell set): \<open>S1\<close> is the state before that iteration, \<open>S2\<close> the state after it, \<open>S\<close> the
  state after the loop. The threshold is 5. When the Euclidean estimate exceeds it, the
  iteration calls nothing but the Euclidean estimate, registers \<open>(a, b)\<close> and \<open>(b, a)\<close>, and
  after the loop both registry entries hold the estimate and both cells 3 times the
  estimate. Otherwise the iteration calls the configured planner for \<open>(a, b)\<close> and stores its
  path (with the target's heading on the last pose), the reversed path, and its length in
  both cells; they are still there after the loop, unless the planner reported the
  length \<open>-1\<close>, which the loop reads as "not computed".
\<close>

theorem no_line_of_sight_defer_or_plan:
  assumes "build_matrix E vps pp = Inr S" "a < b" "b < length vps"
    and "\<not> check_line_of_sight E (asList (pose (vps ! a))) (asList (pose (vps ! b))) pp"
  shows "DIST_THRESHOLD = 5 \<and>
    (\<exists>pre post S1 S2.
       all_pairs (length vps) = pre @ (a, b) # post \<and>
       run_pairs E vps pp (init_solver (length vps)) pre = Inr S1 \<and>
       pair_step E vps pp S1 (a, b) = Inr S2 \<and>
       run_pairs E vps pp S2 post = Inr S \<and>
       (distEuclidean (pose (vps ! a)) (pose (vps ! b)) > DIST_THRESHOLD \<longrightarrow>
          calls S2 = calls S1 @ [(''euclidean'', pose (vps ! a), pose (vps ! b))] \<and>
          tooFarAwayPairs S2 = tooFarAwayPairs S1 @ [(a, b), (b, a)] \<and>
          (a, b) \<in> set (tooFarAwayPairs S) \<and> (b, a) \<in> set (tooFarAwayPairs S) \<and>
          tooFarAwayDistances S (a, b) = Some (distEuclidean (pose (vps ! a)) (pose (vps ! b))) \<and>
          tooFarAwayDistances S (b, a) = Some (distEuclidean (pose (vps ! a)) (pose (vps ! b))) \<and>
          distances S ! a ! b = distEuclidean (pose (vps ! a)) (pose (vps ! b)) * 3 \<and>
          distances S ! b ! a = distEuclidean (pose (vps ! a)) (pose (vps ! b)) * 3) \<and>
       (\<not> distEuclidean (pose (vps ! a)) (pose (vps ! b)) > DIST_THRESHOLD \<longrightarrow>
          (\<exists>cfg path d. pp = Some cfg \<and>
             compute_path E (Suc (length (calls S1))) (pose (vps ! a)) (pose (vps ! b)) pp
               (path_planning_method cfg) = Inr (path, d) \<and>
             calls S2 = calls S1 @ [(''euclidean'', pose (vps ! a), pose (vps ! b)),
                                    (path_planning_method cfg, pose (vps ! a), pose (vps ! b))] \<and>
             tooFarAwayPairs S2 = tooFarAwayPairs S1 \<and>
             paths S2 (a, b) = Some (set_last_heading path (heading (pose (vps ! b)))) \<and>
             paths S2 (b, a) = Some (rev (set_last_heading path (heading (pose (vps ! b))))) \<and>
             distances S2 ! a ! b = d \<and> distances S2 ! b ! a = d \<and>
             (d \<noteq> - 1 \<longrightarrow>
                paths S (a, b) = Some (set_last_heading path (heading (pose (vps ! b)))) \<and>
                distances S ! a ! b = d \<and> distances S ! b ! a = d))))"
proof -
  let ?n = "length vps"
  let ?g1 = "pose (vps ! a)" and ?g2 = "pose (vps ! b)"
  let ?d = "distEuclidean ?g1 ?g2"
  from assms have an: "a < ?n" and ab: "a \<noteq> b" by simp_all
  from build_first_visit [OF assms(1-3)] obtain pre post S1 S2 where
    split: "all_pairs ?n = pre @ (a, b) # post"
    and r1: "run_pairs E vps pp (init_solver ?n) pre = Inr S1"
    and st: "pair_step E vps pp S1 (a, b) = Inr S2"
    and r2: "run_pairs E vps pp S2 post = Inr S"
    and sq1: "square ?n (distances S1)"
    and sy1: "symmetric_zero_diagonal ?n (distances S1)"
    and unset: "distances S1 ! a ! b = - 1"
    by blast
  have sq2: "square ?n (distances S2)" by (rule pair_step_square [OF st sq1])
  have sy2: "symmetric_zero_diagonal ?n (distances S2)"
    by (rule pair_step_symmetric [OF st sq1 sy1])
  have rng: "\<forall>(c, d) \<in> set post. c < ?n \<and> d < ?n"
    using all_pairs_in_range [of _ _ ?n] split by auto
  have far: "calls S2 = calls S1 @ [(''euclidean'', ?g1, ?g2)] \<and>
          tooFarAwayPairs S2 = tooFarAwayPairs S1 @ [(a, b), (b, a)] \<and>
          (a, b) \<in> set (tooFarAwayPairs S) \<and> (b, a) \<in> set (tooFarAwayPairs S) \<and>
          tooFarAwayDistances S (a, b) = Some ?d \<and>
          tooFarAwayDistances S (b, a) = Some ?d \<and>
          distances S ! a ! b = ?d * 3 \<and> distances S ! b ! a = ?d * 3"
    if gt: "?d > DIST_THRESHOLD"
  proof -
    note S2 = pair_step_deferred [OF ab unset assms(4) gt, unfolded st]
    from S2 have S2': "S2 = store (S1\<lparr>calls := calls S1 @ [(''euclidean'', ?g1, ?g2)],
                    tooFarAwayPairs := tooFarAwayPairs S1 @ [(a, b), (b, a)],
                    tooFarAwayDistances := (tooFarAwayDistances S1)
                      ((a, b) \<mapsto> ?d, (b, a) \<mapsto> ?d)\<rparr>)
            a b ?g2 [?g1, ?g2] (?d * 3)" by simp
    have c2: "calls S2 = calls S1 @ [(''euclidean'', ?g1, ?g2)]"
      and t2: "tooFarAwayPairs S2 = tooFarAwayPairs S1 @ [(a, b), (b, a)]"
      and d2: "tooFarAwayDistances S2 (a, b) = Some ?d" "tooFarAwayDistances S2 (b, a) = Some ?d"
      using ab by (simp_all add: S2')
    have cells: "distances S2 ! a ! b = ?d * 3" "distances S2 ! b ! a = ?d * 3"
      using sq1 an assms(3) ab by (simp_all add: S2' store_cell [of ?n])
    have ns: "distances S2 ! a ! b \<noteq> - 1" "distances S2 ! b ! a \<noteq> - 1"
      using cells distEuclidean_not_sentinel(2) [of ?g1 ?g2] by simp_all
    from run_pairs_stable [OF r2 sq2 sy2 an assms(3) rng ns(1)]
         run_pairs_stable [OF r2 sq2 sy2 assms(3) an rng ns(2)]
         run_pairs_registry [OF r2 sq2 sy2 an assms(3) rng ns(1)]
         run_pairs_registry [OF r2 sq2 sy2 assms(3) an rng ns(2)]
         c2 t2 d2 cells
    show ?thesis by auto
  qed
  have near: "\<exists>cfg path d. pp = Some cfg \<and>
             compute_path E (Suc (length (calls S1))) ?g1 ?g2 pp
               (path_planning_method cfg) = Inr (path, d) \<and>
             calls S2 = calls S1 @ [(''euclidean'', ?g1, ?g2),
                                    (path_planning_method cfg, ?g1, ?g2)] \<and>
             tooFarAwayPairs S2 = tooFarAwayPairs S1 \<and>
             paths S2 (a, b) = Some (set_last_heading path (heading ?g2)) \<and>
             paths S2 (b, a) = Some (rev (set_last_heading path (heading ?g2))) \<and>
             distances S2 ! a ! b = d \<and> distances S2 ! b ! a = d \<and>
             (d \<noteq> - 1 \<longrightarrow>
                paths S (a, b) = Some (set_last_heading path (heading ?g2)) \<and>
                distances S ! a ! b = d \<and> distances S ! b ! a = d)"
    if le: "\<not> ?d > DIST_THRESHOLD"
  proof -
    note eq = pair_step_planned [OF ab unset assms(4) le, unfolded st]
    from eq obtain cfg where cfg: "pp = Some cfg" by (cases pp) auto
    from eq cfg obtain path d where
      cp: "compute_path E (Suc (length (calls S1))) ?g1 ?g2 pp (path_planning_method cfg)
             = Inr (path, d)"
      by (auto split: sum.splits)
    from eq cfg cp have S2': "S2 = store (S1\<lparr>calls := calls S1 @ [(''euclidean'', ?g1, ?g2),
                              (path_planning_method cfg, ?g1, ?g2)]\<rparr>) a b ?g2 path d"
      by simp
    have c2: "calls S2 = calls S1 @ [(''euclidean'', ?g1, ?g2), (path_planning_method cfg, ?g1, ?g2)]"
      and t2: "tooFarAwayPairs S2 = tooFarAwayPairs S1"
      and p2: "paths S2 (a, b) = Some (set_last_heading path (heading ?g2))"
              "paths S2 (b, a) = Some (rev (set_last_heading path (heading ?g2)))"
      using ab by (simp_all add: S2' store_path)
    have cells: "distances S2 ! a ! b = d" "distances S2 ! b ! a = d"
      using sq1 an assms(3) ab by (simp_all add: S2' store_cell [of ?n])
    have fin: "paths S (a, b) = Some (set_last_heading path (heading ?g2)) \<and>
               distances S ! a ! b = d \<and> distances S ! b ! a = d" if "d \<noteq> - 1"
      using run_pairs_stable [OF r2 sq2 sy2 an assms(3) rng]
            run_pairs_stable [OF r2 sq2 sy2 assms(3) an rng] cells p2 that
      by simp
    from cfg cp c2 t2 p2 cells fin show ?thesis by blast
  qed
  have "DIST_THRESHOLD = 5" by (simp add: DIST_THRESHOLD_def)
  with split r1 st r2 far near show ?thesis by blast
qed

lemma dist_N: "distEuclidean g0B nB = 3"
  by (simp add: distEuclidean_def g0B_def nB_def)

lemma to_pose_N: "to_pose (asList nB) = nB"
  by (rule to_pose_asList)

lemma build_N: "build_matrix envC vpN (Some cfgB) = Inr builtN"
proof -
  have len: "length vpN = 2" by (simp add: vpN_def)
  show ?thesis
    unfolding build_matrix_def len pairs_2 init_2
    by (simp add: vpN_def pair_step_def call_euclidean call_compute_path_def compute_path_def
        raw_path_def startswith_def cfgB_def envC_def envB_def dist_N DIST_THRESHOLD_def
        store_def Let_def mat_set_def set_last_heading_def set_heading_same builtN_def
        to_pose_asList to_pose_mB)
qed

text \<open>
  Both branches of claim C4 on concrete inputs: Scenario B (estimate 8, deferred with the
  placeholder 24) and a pair 3 apart, for which the sampling-tree planner is called.
\<close>

theorem no_line_of_sight_defer_or_plan_witness:
  "build_matrix envB vpB (Some cfgB) = Inr builtB \<and> (0 :: nat) < 1 \<and> 1 < length vpB \<and>
   \<not> check_line_of_sight envB (asList (pose (vpB ! 0))) (asList (pose (vpB ! 1))) (Some cfgB) \<and>
   distEuclidean (pose (vpB ! 0)) (pose (vpB ! 1)) = 8 \<and> DIST_THRESHOLD = 5 \<and>
   (0, 1) \<in> set (tooFarAwayPairs builtB) \<and> (1, 0) \<in> set (tooFarAwayPairs builtB) \<and>
   tooFarAwayDistances builtB (0, 1) = Some 8 \<and> tooFarAwayDistances builtB (1, 0) = Some 8 \<and>
   distances builtB ! 0 ! 1 = 24 \<and> distances builtB ! 1 ! 0 = 24 \<and>
   calls builtB = [(''euclidean'', g0B, g1B)] \<and>
   build_matrix envC vpN (Some cfgB) = Inr builtN \<and> 1 < length vpN \<and>
   \<not> check_line_of_sight envC (asList (pose (vpN ! 0))) (asList (pose (vpN ! 1))) (Some cfgB) \<and>
   distEuclidean (pose (vpN ! 0)) (pose (vpN ! 1)) = 3 \<and>
   compute_path envC 1 g0B nB (Some cfgB) ''rrt'' = Inr ([g0B, mB, nB], 10) \<and>
   paths builtN (0, 1) = Some [g0B, mB, nB] \<and> paths builtN (1, 0) = Some [nB, mB, g0B] \<and>
   distances builtN ! 0 ! 1 = 10 \<and> distances builtN ! 1 ! 0 = 10 \<and>
   calls builtN = [(''euclidean'', g0B, nB), (''rrt'', g0B, nB)]"
proof -
  have b1: "(0 :: nat) < 1" "1 < length vpB" "1 < length vpN" by (simp_all add: vpB_def vpN_def)
  have l1: "\<not> check_line_of_sight envB (asList (pose (vpB ! 0))) (asList (pose (vpB ! 1))) (Some cfgB)"
    by (simp add: envB_def)
  have l2: "\<not> check_line_of_sight envC (asList (pose (vpN ! 0))) (asList (pose (vpN ! 1))) (Some cfgB)"
    by (simp add: envC_def envB_def)
  have c: "compute_path envC 1 g0B nB (Some cfgB) ''rrt'' = Inr ([g0B, mB, nB], 10)"
    by (simp add: compute_path_def raw_path_def startswith_def envC_def envB_def to_pose_asList
          to_pose_mB)
  have d: "distEuclidean (pose (vpB ! 0)) (pose (vpB ! 1)) = 8"
          "distEuclidean (pose (vpN ! 0)) (pose (vpN ! 1)) = 3"
    by (simp_all add: vpB_def vpN_def dist_B dist_N)
  have gt: "distEuclidean (pose (vpB ! 0)) (pose (vpB ! 1)) > DIST_THRESHOLD"
    unfolding d DIST_THRESHOLD_def by simp
  from no_line_of_sight_defer_or_plan [OF build_B b1(1,2) l1] gt
  have far: "DIST_THRESHOLD = 5 \<and>
     (0, 1) \<in> set (tooFarAwayPairs builtB) \<and> (1, 0) \<in> set (tooFarAwayPairs builtB) \<and>
     tooFarAwayDistances builtB (0, 1) = Some (distEuclidean (pose (vpB ! 0)) (pose (vpB ! 1))) \<and>
     tooFarAwayDistances builtB (1, 0) = Some (distEuclidean (pose (vpB ! 0)) (pose (vpB ! 1))) \<and>
     distances builtB ! 0 ! 1 = distEuclidean (pose (vpB ! 0)) (pose (vpB ! 1)) * 3 \<and>
     distances builtB ! 1 ! 0 = distEuclidean (pose (vpB ! 0)) (pose (vpB ! 1)) * 3"
    by blast
  with build_B build_N b1 l1 l2 c d show ?thesis
    by (simp add: builtB_def builtN_def)
qed













subsection \<open>The greedy assignment of clusterViewpoints\<close>

lemma in_set_update_unset:
  assumes "c < length A" "A ! c = - 1" "(0 :: int) \<le> x"
  shows "x \<in> set (A[c := y]) \<longleftrightarrow> x = y \<or> x \<in> set A"
proof
  assume "x \<in> set (A[c := y])"
  then show "x = y \<or> x \<in> set A"
    using set_update_subset_insert [of A c y] by auto
next
  assume "x = y \<or> x \<in> set A"
  then show "x \<in> set (A[c := y])"
  proof
    assume "x = y"
    then show ?thesis using assms(1) by (simp add: set_update_memI)
  next
    assume "x \<in> set A"
    then obtain i where i: "i < length A" "A ! i = x" by (auto simp: in_set_conv_nth)
    with assms(2,3) have "i \<noteq> c" by auto
    with i have "A[c := y] ! i = x" "i < length (A[c := y])" by simp_all
    then show ?thesis by (metis nth_mem)
  qed
qed

lemma inner_inv_step:
  assumes "inner_inv d_mat c A u st" "c < length A" "A ! c = - 1"
  shows "inner_inv d_mat c A (Suc u) (uav_step d_mat c st u)"
  using assms(1) unfolding inner_inv_def
proof (elim disjE exE conjE)
  assume st: "st = (None, A)" and seen: "\<forall>i<u. int i \<in> set A"
  show "uav_step d_mat c st u = (None, A) \<and> (\<forall>i<Suc u. int i \<in> set A) \<or>
        (\<exists>j<Suc u. uav_step d_mat c st u = (Some (d_mat ! c ! j), A[c := int j]) \<and>
           int j \<notin> set A \<and> (\<forall>i<Suc u. int i \<notin> set A \<longrightarrow> d_mat ! c ! j \<le> d_mat ! c ! i))"
  proof (cases "int u \<in> set A")
    case True
    with st seen have "uav_step d_mat c st u = (None, A) \<and> (\<forall>i<Suc u. int i \<in> set A)"
      by (auto simp: uav_step_def below_def less_Suc_eq)
    then show ?thesis ..
  next
    case False
    with st have "uav_step d_mat c st u = (Some (d_mat ! c ! u), A[c := int u])"
      by (simp add: uav_step_def below_def)
    moreover from seen have "\<forall>i<Suc u. int i \<notin> set A \<longrightarrow> d_mat ! c ! u \<le> d_mat ! c ! i"
      by (auto simp: less_Suc_eq)
    ultimately show ?thesis using False by blast
  qed
next
  fix j
  assume j: "j < u" and st: "st = (Some (d_mat ! c ! j), A[c := int j])"
    and free: "int j \<notin> set A"
    and least: "\<forall>i<u. int i \<notin> set A \<longrightarrow> d_mat ! c ! j \<le> d_mat ! c ! i"
  have mem: "int u \<in> set (A[c := int j]) \<longleftrightarrow> int u \<in> set A"
    using in_set_update_unset [OF assms(2,3), of "int u" "int j"] j by auto
  show "uav_step d_mat c st u = (None, A) \<and> (\<forall>i<Suc u. int i \<in> set A) \<or>
        (\<exists>j<Suc u. uav_step d_mat c st u = (Some (d_mat ! c ! j), A[c := int j]) \<and>
           int j \<notin> set A \<and> (\<forall>i<Suc u. int i \<notin> set A \<longrightarrow> d_mat ! c ! j \<le> d_mat ! c ! i))"
  proof (cases "d_mat ! c ! u < d_mat ! c ! j \<and> int u \<notin> set A")
    case True
    with st mem have "uav_step d_mat c st u = (Some (d_mat ! c ! u), A[c := int u])"
      by (simp add: uav_step_def below_def)
    moreover from True least
    have "\<forall>i<Suc u. int i \<notin> set A \<longrightarrow> d_mat ! c ! u \<le> d_mat ! c ! i"
      by (force simp: less_Suc_eq)
    ultimately show ?thesis using True by blast
  next
    case False
    with st mem have "uav_step d_mat c st u = (Some (d_mat ! c ! j), A[c := int j])"
      by (auto simp: uav_step_def below_def)
    moreover from False least
    have "\<forall>i<Suc u. int i \<notin> set A \<longrightarrow> d_mat ! c ! j \<le> d_mat ! c ! i"
      by (force simp: less_Suc_eq)
    ultimately show ?thesis using j free by (intro disjI2 exI [of _ j]) simp
  qed
qed

lemma inner_inv_loop:
  assumes "c < length A" "A ! c = - 1"
  shows "inner_inv d_mat c A u (foldl (uav_step d_mat c) (None, A) [0..<u])"
proof (induction u)
  case 0
  show ?case by (simp add: inner_inv_def)
next
  case (Suc u)
  from inner_inv_step [OF Suc assms] show ?case by simp
qed

lemma ctr_step_result:
  assumes "c < length A" "A ! c = - 1" "\<exists>j<k. int j \<notin> set A"
  shows "\<exists>j<k. ctr_step k d_mat A c = A[c := int j] \<and> int j \<notin> set A \<and>
           (\<forall>i<k. int i \<notin> set A \<longrightarrow> d_mat ! c ! j \<le> d_mat ! c ! i)"
  using inner_inv_loop [OF assms(1,2), of d_mat k] assms(3)
  unfolding inner_inv_def ctr_step_def by auto

lemma outer_inv_free:
  assumes "outer_inv k d_mat c A" "c < k"
  shows "\<exists>j<k. int j \<notin> set (take c A)"
proof (rule ccontr)
  assume "\<not> (\<exists>j<k. int j \<notin> set (take c A))"
  then have "int ` {0..<k} \<subseteq> set (take c A)" by auto
  then have "card (int ` {0..<k}) \<le> card (set (take c A))"
    by (intro card_mono) simp_all
  moreover have "card (int ` {0..<k}) = k" by (simp add: card_image)
  moreover have "card (set (take c A)) = c"
    using assms by (simp add: outer_inv_def distinct_card)
  ultimately show False using assms(2) by simp
qed

lemma outer_inv_claimed:
  assumes "outer_inv k d_mat c A" "c \<le> k"
  shows "int u \<in> set A \<longleftrightarrow> int u \<in> set (take c A)"
proof
  assume "int u \<in> set A"
  then obtain i where i: "i < length A" "A ! i = int u" by (auto simp: in_set_conv_nth)
  have "i < c"
  proof (rule ccontr)
    assume "\<not> i < c"
    with assms(1) i(1) have "A ! i = - 1" by (simp add: outer_inv_def)
    with i(2) show False by simp
  qed
  with i show "int u \<in> set (take c A)"
    by (auto simp: in_set_conv_nth intro!: exI [of _ i])
next
  assume "int u \<in> set (take c A)"
  then show "int u \<in> set A" by (rule in_set_takeD)
qed

lemma outer_inv_step:
  assumes "outer_inv k d_mat c A" "c < k"
  shows "outer_inv k d_mat (Suc c) (ctr_step k d_mat A c)"
proof -
  from assms have len: "length A = k" and unset: "A ! c = - 1"
    and dist: "distinct (take c A)" and rng: "set (take c A) \<subseteq> int ` {0..<k}"
    and rest: "\<forall>i. c \<le> i \<and> i < k \<longrightarrow> A ! i = - 1"
    and greedy: "\<forall>i<c. \<forall>u<k. int u \<notin> set (take i A) \<longrightarrow> d_mat ! i ! nat (A ! i) \<le> d_mat ! i ! u"
    by (simp_all add: outer_inv_def)
  have cl: "int u \<in> set A \<longleftrightarrow> int u \<in> set (take c A)" for u
    using outer_inv_claimed [OF assms(1)] assms(2) by simp
  from outer_inv_free [OF assms] cl have "\<exists>j<k. int j \<notin> set A" by simp
  from ctr_step_result [OF _ unset this, of d_mat] assms(2) len obtain j where
    j: "j < k" "ctr_step k d_mat A c = A[c := int j]" "int j \<notin> set A"
       "\<forall>i<k. int i \<notin> set A \<longrightarrow> d_mat ! c ! j \<le> d_mat ! c ! i"
    by auto
  have tk: "take (Suc c) (A[c := int j]) = take c A @ [int j]"
    using assms(2) len by (simp add: take_Suc_conv_app_nth)
  have tk': "take i (A[c := int j]) = take i A" if "i \<le> c" for i
    using that by simp
  show ?thesis
    unfolding outer_inv_def j(2)
  proof (intro conjI allI impI)
    show "length (A[c := int j]) = k" using len by simp
    show "distinct (take (Suc c) (A[c := int j]))"
      using dist j(3) cl by (simp add: tk)
    show "set (take (Suc c) (A[c := int j])) \<subseteq> int ` {0..<k}"
      using rng j(1) by (auto simp: tk)
  next
    fix i assume "Suc c \<le> i \<and> i < k"
    with rest show "A[c := int j] ! i = - 1" by simp
  next
    fix i u assume i: "i < Suc c" and u: "u < k"
      and free: "int u \<notin> set (take i (A[c := int j]))"
    show "d_mat ! i ! nat (A[c := int j] ! i) \<le> d_mat ! i ! u"
    proof (cases "i = c")
      case True
      with free have "int u \<notin> set (take c A)" by (simp add: tk')
      with cl have "int u \<notin> set A" by simp
      with j(4) u have "d_mat ! c ! j \<le> d_mat ! c ! u" by simp
      with True assms(2) len show ?thesis by simp
    next
      case False
      with i have ic: "i < c" by simp
      with free have "int u \<notin> set (take i A)" by (simp add: tk')
      with greedy ic u have "d_mat ! i ! nat (A ! i) \<le> d_mat ! i ! u" by simp
      with ic show ?thesis by simp
    qed
  qed
qed

lemma outer_inv_loop:
  "c \<le> k \<Longrightarrow> outer_inv k d_mat c (foldl (ctr_step k d_mat) (replicate k (- 1)) [0..<c])"
proof (induction c)
  case 0
  show ?case by (simp add: outer_inv_def)
next
  case (Suc c)
  then have "outer_inv k d_mat c (foldl (ctr_step k d_mat) (replicate k (- 1)) [0..<c])"
    and "c < k" by simp_all
  from outer_inv_step [OF this] show ?case by simp
qed

lemma greedy_assignment:
  "\<exists>assigned. assign_clusters k d_mat = Inr assigned \<and>
           length assigned = k \<and> distinct assigned \<and> set assigned = int ` {0..<k} \<and>
           (\<forall>c<k. \<forall>u<k. int u \<notin> set (take c assigned) \<longrightarrow>
              d_mat ! c ! nat (assigned ! c) \<le> d_mat ! c ! u)"
proof -
  let ?A = "foldl (ctr_step k d_mat) (replicate k (- 1)) [0..<k]"
  from outer_inv_loop [of k k d_mat] have inv: "outer_inv k d_mat k ?A" by simp
  then have len: "length ?A = k" by (simp add: outer_inv_def)
  then have all: "take k ?A = ?A" by simp
  from inv have "distinct (take k ?A)" and "set (take k ?A) \<subseteq> int ` {0..<k}"
    unfolding outer_inv_def by blast+
  with all have dist: "distinct ?A" and sub: "set ?A \<subseteq> int ` {0..<k}" by simp_all
  from inv have greedy: "\<forall>c<k. \<forall>u<k. int u \<notin> set (take c ?A) \<longrightarrow>
              d_mat ! c ! nat (?A ! c) \<le> d_mat ! c ! u"
    by (simp add: outer_inv_def)
  have "card (set ?A) = card (int ` {0..<k})"
    using dist len by (simp add: distinct_card card_image)
  with sub have "set ?A = int ` {0..<k}" by (intro card_subset_eq) simp_all
  moreover have "assign_clusters k d_mat = Inr ?A"
    using dist by (simp add: assign_clusters_def Let_def distinct_remdups_id)
  ultimately show ?thesis using len dist greedy by blast
qed

lemma square_C: "square 3 d_matC"
  by (simp add: square_def d_matC_def)

lemma assign_C: "assign_clusters 3 d_matC = Inr [0, 1, 2]"
  by (simp add: assign_clusters_def ctr_step_def uav_step_def below_def d_matC_def Let_def
        upt_rec numeral_3_eq_3)

text \<open>
  Claim C9. For every \<open>k\<close> and every \<open>k\<close> x \<open>k\<close> matrix of distances, the greedy loop of
  \<open>clusterViewpoints\<close> passes its assertion and returns an assignment that is a bijection
  between the centres \<open>0..k-1\<close> and the robots \<open>0..k-1\<close>; the centre \<open>c\<close> holds a robot that is
  nearest to it among the robots that the centres before \<open>c\<close> have not claimed. In Scenario C
  of the spec robot 0 is the nearest to every centre, and the centres receive the robots
  0, 1, 2.
\<close>

theorem greedy_assignment_bijection:
  "(\<forall>k d_mat. square k d_mat \<longrightarrow>
      (\<exists>assigned. assign_clusters k d_mat = Inr assigned \<and>
         length assigned = k \<and> distinct assigned \<and> set assigned = int ` {0..<k} \<and>
         (\<forall>c<k. \<forall>u<k. int u \<notin> set (take c assigned) \<longrightarrow>
            d_mat ! c ! nat (assigned ! c) \<le> d_mat ! c ! u))) \<and>
   square 3 d_matC \<and> assign_clusters 3 d_matC = Inr [0, 1, 2] \<and>
   d_matC ! 1 ! 0 < d_matC ! 1 ! 1 \<and> d_matC ! 2 ! 0 < d_matC ! 2 ! 2"
proof -
  have "d_matC ! 1 ! 0 < d_matC ! 1 ! 1 \<and> d_matC ! 2 ! 0 < d_matC ! 2 ! 2"
    by (simp add: d_matC_def)
  with greedy_assignment square_C assign_C show ?thesis by blast
qed

text \<open>
  Claim C9 on Scenario C: the centre 1 receives robot 1, although robot 0 is nearer to it.
\<close>

theorem greedy_assignment_bijection_witness:
  "square 3 d_matC \<and> assign_clusters 3 d_matC = Inr [0, 1, 2] \<and>
   length [0, 1, 2 :: int] = 3 \<and> distinct [0, 1, 2 :: int] \<and>
   set [0, 1, 2 :: int] = int ` {0..<3} \<and>
   (1 :: nat) < 3 \<and> (2 :: nat) < 3 \<and> int 2 \<notin> set (take 1 [0, 1, 2 :: int]) \<and>
   d_matC ! 1 ! nat ([0, 1, 2] ! 1) \<le> d_matC ! 1 ! 2 \<and>
   d_matC ! 1 ! 0 < d_matC ! 1 ! nat ([0, 1, 2] ! 1)"
proof -
  from greedy_assignment_bijection have
    "square 3 d_matC \<longrightarrow>
      (\<exists>assigned. assign_clusters 3 d_matC = Inr assigned \<and>
         length assigned = 3 \<and> distinct assigned \<and> set assigned = int ` {0..<3} \<and>
         (\<forall>c<3. \<forall>u<3. int u \<notin> set (take c assigned) \<longrightarrow>
            d_matC ! c ! nat (assigned ! c) \<le> d_matC ! c ! u))"
    by blast
  with square_C assign_C have r:
    "length [0, 1, 2 :: int] = 3 \<and> distinct [0, 1, 2 :: int] \<and>
     set [0, 1, 2 :: int] = int ` {0..<3} \<and>
     (\<forall>c<3. \<forall>u<3. int u \<notin> set (take c [0, 1, 2 :: int]) \<longrightarrow>
        d_matC ! c ! nat ([0, 1, 2] ! c) \<le> d_matC ! c ! u)"
    by auto
  then have "(1 :: nat) < 3 \<longrightarrow> (2 :: nat) < 3 \<longrightarrow> int 2 \<notin> set (take 1 [0, 1, 2 :: int]) \<longrightarrow>
        d_matC ! 1 ! nat ([0, 1, 2] ! 1) \<le> d_matC ! 1 ! 2"
    by blast
  moreover have "(1 :: nat) < 3" "(2 :: nat) < 3" "int 2 \<notin> set (take 1 [0, 1, 2 :: int])"
    by simp_all
  moreover have "d_matC ! 1 ! 0 < d_matC ! 1 ! nat ([0, 1, 2] ! 1)"
    by (simp add: d_matC_def)
  ultimately show ?thesis using r square_C assign_C by blast
qed

end
